theory Spec2Isabelle
  imports Main "HOL-Library.Log_Nat" "HOL-Library.Word"
begin

section \<open>Double-precision arithmetic\<close>

text \<open>
  The program computes with C++ \<^verbatim>\<open>double\<close>.  A double is modelled by its value: a
  rational number, one of the two infinities, or NaN.  Every arithmetic operation
  computes the exact rational result and rounds it to the nearest binary64 number, ties
  to the even significand (the default rounding mode), with gradual underflow and with
  overflow to infinity.  The sign of zero is not kept: the program never divides by a
  computed zero, and no other operation it uses tells \<^verbatim>\<open>-0.0\<close> from \<^verbatim>\<open>0.0\<close>.
\<close>

datatype double = Finite rat | PInf | NInf | NaN

text \<open>\<open>flog2 a\<close> is the binary exponent of a positive rational: \<open>2^e \<le> a < 2^(e+1)\<close>.\<close>

definition flog2 :: "rat \<Rightarrow> int" where
  "flog2 a = (if 1 \<le> a then bitlen \<lfloor>a\<rfloor> - 1 else - bitlen (\<lceil>1 / a\<rceil> - 1))"

text \<open>Rounding to the nearest integer, ties to even.\<close>

definition rne :: "rat \<Rightarrow> int" where
  "rne x = (let f = \<lfloor>x\<rfloor>; d = x - of_int f in
     if d < 1 / 2 then f else if 1 / 2 < d then f + 1 else if even f then f else f + 1)"

text \<open>
  The exponent of the last place of the binary64 numbers around \<open>q\<close>: 53 significant
  bits for normal numbers, the fixed spacing \<open>2^-1074\<close> below \<open>2^-1022\<close>.
\<close>

definition quantum :: "rat \<Rightarrow> int" where
  "quantum q = max (flog2 \<bar>q\<bar>) (- 1022) - 52"

definition round_rat :: "rat \<Rightarrow> rat" where
  "round_rat q =
     (if q = 0 then 0 else of_int (rne (q / 2 powi quantum q)) * 2 powi quantum q)"

text \<open>The sign of an infinite result.\<close>

definition signed_inf :: "bool \<Rightarrow> double" where
  "signed_inf neg = (if neg then NInf else PInf)"

text \<open>
  A rounded value whose binary exponent is above 1023, that is, whose magnitude has
  reached \<open>2^1024\<close>, is replaced by the infinity of its sign.
\<close>

definition overflow :: "rat \<Rightarrow> double" where
  "overflow r = (if r = 0 \<or> flog2 \<bar>r\<bar> < 1024 then Finite r else signed_inf (r < 0))"

definition to_double :: "rat \<Rightarrow> double" where
  "to_double q = overflow (round_rat q)"

text \<open>A rational is a binary64 value when rounding leaves it alone.\<close>

definition is_double :: "rat \<Rightarrow> bool" where
  "is_double q \<longleftrightarrow> to_double q = Finite q"

fun fneg :: "double \<Rightarrow> double" where
  "fneg (Finite a) = Finite (- a)"
| "fneg PInf = NInf"
| "fneg NInf = PInf"
| "fneg NaN = NaN"

fun fadd :: "double \<Rightarrow> double \<Rightarrow> double" where
  "fadd (Finite a) (Finite b) = to_double (a + b)"
| "fadd NaN _ = NaN"
| "fadd _ NaN = NaN"
| "fadd PInf NInf = NaN"
| "fadd NInf PInf = NaN"
| "fadd PInf _ = PInf"
| "fadd NInf _ = NInf"
| "fadd _ PInf = PInf"
| "fadd _ NInf = NInf"

definition fsub :: "double \<Rightarrow> double \<Rightarrow> double" where
  "fsub a b = fadd a (fneg b)"

fun fmul :: "double \<Rightarrow> double \<Rightarrow> double" where
  "fmul (Finite a) (Finite b) = to_double (a * b)"
| "fmul NaN _ = NaN"
| "fmul _ NaN = NaN"
| "fmul (Finite a) PInf = (if a = 0 then NaN else signed_inf (a < 0))"
| "fmul (Finite a) NInf = (if a = 0 then NaN else signed_inf (0 < a))"
| "fmul PInf (Finite b) = (if b = 0 then NaN else signed_inf (b < 0))"
| "fmul NInf (Finite b) = (if b = 0 then NaN else signed_inf (0 < b))"
| "fmul PInf PInf = PInf"
| "fmul NInf NInf = PInf"
| "fmul PInf NInf = NInf"
| "fmul NInf PInf = NInf"

text \<open>Division; a zero divisor is the positive zero that an integer 0 converts to.\<close>

fun fdiv :: "double \<Rightarrow> double \<Rightarrow> double" where
  "fdiv (Finite a) (Finite b) =
     (if b = 0 then (if a = 0 then NaN else signed_inf (a < 0)) else to_double (a / b))"
| "fdiv NaN _ = NaN"
| "fdiv _ NaN = NaN"
| "fdiv (Finite a) _ = Finite 0"
| "fdiv PInf (Finite b) = signed_inf (b < 0)"
| "fdiv NInf (Finite b) = signed_inf (0 \<le> b)"
| "fdiv _ _ = NaN"

text \<open>The comparison \<^verbatim>\<open><\<close>: false whenever an operand is NaN.\<close>

fun flt :: "double \<Rightarrow> double \<Rightarrow> bool" where
  "flt (Finite a) (Finite b) = (a < b)"
| "flt NaN _ = False"
| "flt _ NaN = False"
| "flt _ NInf = False"
| "flt PInf _ = False"
| "flt _ _ = True"

text \<open>The conversion of an \<^verbatim>\<open>int\<close> to \<^verbatim>\<open>double\<close> (exact for every 32-bit value).\<close>

definition int_to_double :: "int \<Rightarrow> double" where
  "int_to_double i = to_double (of_int i)"

text \<open>
  The cast \<^verbatim>\<open>(unsigned char)d\<close>.  The compiled code converts the double to a 32-bit
  integer, truncating towards zero, and keeps the low byte; a NaN, an infinity or a value
  outside the 32-bit range converts to the pattern \<^verbatim>\<open>0x80000000\<close>, whose low byte is 0.
  (ISO C++ leaves the conversion undefined as soon as the truncated value is not in
  \<open>0..255\<close>; this is what the usual x86-64 compilers generate.)
\<close>

definition trunc :: "rat \<Rightarrow> int" where
  "trunc q = (if 0 \<le> q then \<lfloor>q\<rfloor> else \<lceil>q\<rceil>)"

fun to_uchar :: "double \<Rightarrow> 8 word" where
  "to_uchar (Finite q) =
     (if - (2 ^ 31) \<le> trunc q \<and> trunc q < 2 ^ 31 then word_of_int (trunc q) else 0)"
| "to_uchar _ = 0"

subsection \<open>Square root and \<^verbatim>\<open>std::complex<double>\<close>\<close>

text \<open>The integer square root, two bits of the argument at a time.\<close>

function isqrt :: "int \<Rightarrow> int" where
  "isqrt n = (if n < 1 then 0
     else let r = 2 * isqrt (n div 4) in if (r + 1) * (r + 1) \<le> n then r + 1 else r)"
  by pat_completeness auto
termination
  by (relation "measure nat") auto

text \<open>
  The square root of a non-negative rational, correctly rounded: the significand is the
  integer square root of the scaled argument, moved up by one when the exact root lies
  above the midpoint (or on it, next to an odd significand).
\<close>

definition sqrt_double :: "rat \<Rightarrow> double" where
  "sqrt_double s = (if s \<le> 0 then Finite 0 else
     let k = max (flog2 s div 2) (- 1022) - 52;
         x = s / 2 powi (2 * k);
         m = isqrt \<lfloor>x\<rfloor>;
         h = (of_int m + 1 / 2) * (of_int m + 1 / 2);
         n = (if x < h then m else if h < x then m + 1 else if even m then m else m + 1)
     in overflow (of_int n * 2 powi k))"

text \<open>
  A \<^verbatim>\<open>std::complex<double>\<close> is its real and imaginary part.  The product is computed by
  the textbook formula; the library's repair of a NaN result into an infinity is left out,
  since it only ever replaces one non-finite value by another.

  \<^verbatim>\<open>std::abs\<close> of a complex number is the C library's \<^verbatim>\<open>hypot\<close>.  The library is not
  part of the program, and libraries differ in how they round the root of the sum of the
  squares, so the library's result for two finite, non-zero arguments is a parameter
  \<open>impl\<close> of the model.  What the C standard (Annex F) fixes for every library is written
  out: the result is infinite when a part is infinite, else NaN when a part is NaN, and
  \<^verbatim>\<open>hypot(x, 0)\<close> is exactly \<open>|x|\<close>.
\<close>

type_synonym complex_double = "double \<times> double"

definition cadd :: "complex_double \<Rightarrow> complex_double \<Rightarrow> complex_double" where
  "cadd z w = (fadd (fst z) (fst w), fadd (snd z) (snd w))"

definition cmul :: "complex_double \<Rightarrow> complex_double \<Rightarrow> complex_double" where
  "cmul z w = (fsub (fmul (fst z) (fst w)) (fmul (snd z) (snd w)),
               fadd (fmul (fst z) (snd w)) (fmul (snd z) (fst w)))"

type_synonym hypot_impl = "rat \<Rightarrow> rat \<Rightarrow> double"

fun hypot :: "hypot_impl \<Rightarrow> double \<Rightarrow> double \<Rightarrow> double" where
  "hypot impl (Finite a) (Finite b) =
     (if b = 0 then Finite \<bar>a\<bar> else if a = 0 then Finite \<bar>b\<bar> else impl a b)"
| "hypot impl PInf _ = PInf"
| "hypot impl NInf _ = PInf"
| "hypot impl _ PInf = PInf"
| "hypot impl _ NInf = PInf"
| "hypot impl _ _ = NaN"

definition cabs :: "hypot_impl \<Rightarrow> complex_double \<Rightarrow> double" where
  "cabs impl z = hypot impl (fst z) (snd z)"

text \<open>
  One such library function: the correctly rounded root of the exact sum of the squares.
\<close>

definition hypot_nearest :: hypot_impl where
  "hypot_nearest a b = sqrt_double (a * a + b * b)"

section \<open>The escape-time evaluator\<close>

text \<open>
  \<^verbatim>\<open>mandelbrot\<close>: the loop state is \<open>z\<close> and the counter; the counter is a C++
  \<^verbatim>\<open>int\<close> that stays between 0 and \<open>maxIterations\<close>, so it cannot overflow.
\<close>

function mandelbrot_loop ::
  "hypot_impl \<Rightarrow> complex_double \<Rightarrow> int \<Rightarrow> complex_double \<Rightarrow> int \<Rightarrow> int" where
  "mandelbrot_loop impl c maxIterations z iterations =
     (if flt (cabs impl z) (Finite 2) \<and> iterations < maxIterations
      then mandelbrot_loop impl c maxIterations (cadd (cmul z z) c) (iterations + 1)
      else iterations)"
  by pat_completeness auto
termination
  by (relation
      "measure (\<lambda>(impl, c, maxIterations, z, iterations). nat (maxIterations - iterations))")
    auto

definition mandelbrot :: "hypot_impl \<Rightarrow> double \<Rightarrow> double \<Rightarrow> int \<Rightarrow> int" where
  "mandelbrot impl re im maxIterations =
     mandelbrot_loop impl (re, im) maxIterations (Finite 0, Finite 0) 0"

section \<open>The colour mapper\<close>

text \<open>The three channel formulas of \<^verbatim>\<open>getColor\<close>, evaluated left to right as C++ does.\<close>

definition red_value :: "double \<Rightarrow> double" where
  "red_value t =
     fmul (fmul (fmul (fmul (fmul (fmul (int_to_double 9) (fsub (int_to_double 1) t)) t) t) t)
       (int_to_double 255)) (Finite (3 / 2))"

definition green_value :: "double \<Rightarrow> double" where
  "green_value t =
     fmul (fmul (fmul (fmul (fmul (fmul (int_to_double 15) (fsub (int_to_double 1) t))
       (fsub (int_to_double 1) t)) t) t) (int_to_double 255)) (Finite (3 / 2))"

definition blue_value :: "double \<Rightarrow> double" where
  "blue_value t =
     fmul (fmul (fmul (fmul (fmul (fmul (Finite (17 / 2)) (fsub (int_to_double 1) t))
       (fsub (int_to_double 1) t)) (fsub (int_to_double 1) t)) t) (int_to_double 255))
       (Finite (3 / 2))"

definition getColor :: "int \<Rightarrow> int \<Rightarrow> 8 word \<times> 8 word \<times> 8 word" where
  "getColor iterations maxIterations =
     (let t = fdiv (int_to_double iterations) (int_to_double maxIterations) in
      if iterations = maxIterations then (0, 0, 0)
      else
        let r = to_uchar (red_value t);
            g = to_uchar (green_value t);
            b = to_uchar (blue_value t)
        in (min r 255, min g 255, min b 255))"

section \<open>The raster driver\<close>

text \<open>
  The constants of \<^verbatim>\<open>main\<close>.  All integers of the driver are C++ \<^verbatim>\<open>int\<close>; the largest
  value it computes is the buffer size 1920000, so unbounded integers behave the same.
\<close>

definition width :: int where "width = 800"
definition height :: int where "height = 800"
definition maxIterations :: int where "maxIterations = 1000"

definition minReal :: double where "minReal = Finite (- 2)"
definition maxReal :: double where "maxReal = Finite 1"
definition minImag :: double where "minImag = Finite (- 3 / 2)"
definition maxImag :: double where "maxImag = Finite (3 / 2)"

type_synonym buffer = "8 word list"

text \<open>
  \<^verbatim>\<open>image[i] = v\<close> on a \<^verbatim>\<open>std::vector\<close>: defined only for an index inside the vector.  An
  access outside it is undefined behaviour, which the model reports as \<open>None\<close>.
\<close>

definition store :: "buffer \<Rightarrow> int \<Rightarrow> 8 word \<Rightarrow> buffer option" where
  "store buf i v = (if 0 \<le> i \<and> i < int (length buf) then Some (buf[nat i := v]) else None)"

text \<open>The body of the inner loop: one pixel.\<close>

definition loop_body :: "hypot_impl \<Rightarrow> int \<Rightarrow> int \<Rightarrow> buffer \<Rightarrow> buffer option" where
  "loop_body impl x y buf =
     (let re = fadd minReal
                 (fmul (fdiv (int_to_double x) (int_to_double width)) (fsub maxReal minReal));
          im = fadd minImag
                 (fmul (fdiv (int_to_double y) (int_to_double height)) (fsub maxImag minImag));
          iterations = mandelbrot impl re im maxIterations;
          (r, g, b) = getColor iterations maxIterations;
          index = (y * width + x) * 3
      in Option.bind (store buf index r) (\<lambda>buf1.
         Option.bind (store buf1 (index + 1) g) (\<lambda>buf2.
         store buf2 (index + 2) b)))"

function inner_loop :: "hypot_impl \<Rightarrow> int \<Rightarrow> int \<Rightarrow> buffer \<Rightarrow> buffer option" where
  "inner_loop impl x y buf =
     (if y < height
      then (case loop_body impl x y buf of
              None \<Rightarrow> None
            | Some buf' \<Rightarrow> inner_loop impl x (y + 1) buf')
      else Some buf)"
  by pat_completeness auto
termination
  by (relation "measure (\<lambda>(impl, x, y, buf). nat (height - y))") auto

function outer_loop :: "hypot_impl \<Rightarrow> int \<Rightarrow> buffer \<Rightarrow> buffer option" where
  "outer_loop impl x buf =
     (if x < width
      then (case inner_loop impl x 0 buf of
              None \<Rightarrow> None
            | Some buf' \<Rightarrow> outer_loop impl (x + 1) buf')
      else Some buf)"
  by pat_completeness auto
termination
  by (relation "measure (\<lambda>(impl, x, buf). nat (width - x))") auto

text \<open>The freshly constructed vector, and the buffer after the two loops.\<close>

definition initial_image :: buffer where
  "initial_image = replicate (nat (width * height * 3)) 0"

definition raster :: "hypot_impl \<Rightarrow> buffer option" where
  "raster impl = outer_loop impl 0 initial_image"

text \<open>Decimal output of a size, for the console line that reports it.\<close>

fun decimal :: "nat \<Rightarrow> string" where
  "decimal n = (if n < 10 then [''0123456789'' ! n]
     else decimal (n div 10) @ [''0123456789'' ! (n mod 10)])"

text \<open>
  What a run of the program leaves behind: the exit code, the lines written to the two
  console streams, and the pixel buffer.  The PNG encoder \<^verbatim>\<open>stbi_write_png\<close> is not part
  of the program; \<^verbatim>\<open>main\<close> takes it as a parameter, next to the library's \<^verbatim>\<open>hypot\<close>.  It receives the file name, width,
  height, channel count, the pixel data (through a pointer to constant data, so it cannot
  change the buffer) and the row stride, and returns 0 when it fails.
\<close>

record run =
  exit_code :: int
  cout :: "string list"
  cerr :: "string list"
  pixels :: buffer

type_synonym encoder = "string \<Rightarrow> int \<Rightarrow> int \<Rightarrow> int \<Rightarrow> buffer \<Rightarrow> int \<Rightarrow> int"

definition main :: "hypot_impl \<Rightarrow> encoder \<Rightarrow> run option" where
  "main impl stbi_write_png =
     (case raster impl of
        None \<Rightarrow> None
      | Some buf \<Rightarrow>
          let out = [''Generating Mandelbrot...'', ''Mandelbrot generation complete.'',
                     ''Image buffer size: '' @ decimal (length buf)]
          in if stbi_write_png ''mandelbrot_fractal_pattern.png'' width height 3 buf (width * 3) = 0
             then Some \<lparr>exit_code = 1, cout = out, cerr = [''Failed to save the image!''],
                         pixels = buf\<rparr>
             else Some \<lparr>exit_code = 0, cout = out @ [''Image saved successfully!''], cerr = [],
                         pixels = buf\<rparr>)"

section \<open>The specification's reference definitions\<close>

text \<open>
  The escape-time evaluator as the specification words it: starting from \<open>z = 0\<close>, while
  \<open>|z| < 2\<close> and the count is below the cap, replace \<open>z\<close> by \<open>z*z + c\<close> and count one
  step.  The modulus is the true modulus, tested by the threshold \<open>re\<^sup>2 + im\<^sup>2 < 4\<close> on the
  exact values, so that the escape boundary is exactly the circle of radius 2; a value
  with an infinite or NaN part is not inside.  The square is the textbook
  \<open>(x\<^sup>2 - y\<^sup>2, 2xy)\<close>, in double arithmetic.  The remaining budget is the recursion
  argument and the steps are counted on the way back.
\<close>

fun inside_radius_2 :: "complex_double \<Rightarrow> bool" where
  "inside_radius_2 (Finite x, Finite y) = (x * x + y * y < 4)"
| "inside_radius_2 _ = False"

fun square_plus :: "complex_double \<Rightarrow> complex_double \<Rightarrow> complex_double" where
  "square_plus (x, y) (cr, ci) =
     (fadd (fsub (fmul x x) (fmul y y)) cr, fadd (fmul (Finite 2) (fmul x y)) ci)"

fun escape_steps :: "nat \<Rightarrow> complex_double \<Rightarrow> complex_double \<Rightarrow> nat" where
  "escape_steps 0 c z = 0"
| "escape_steps (Suc budget) c z =
     (if inside_radius_2 z then Suc (escape_steps budget c (square_plus z c)) else 0)"

definition reference_escape_time :: "double \<Rightarrow> double \<Rightarrow> int \<Rightarrow> int" where
  "reference_escape_time re im cap = int (escape_steps (nat cap) (re, im) (Finite 0, Finite 0))"

text \<open>
  The library's comparison \<^verbatim>\<open>hypot(x, y) < 2.0\<close> agrees with the true modulus at a value
  \<open>z\<close>, and at every value the reference iteration visits from \<open>z\<close> within a budget.
  (Where a part of \<open>z\<close> is zero, infinite or NaN the library has no freedom.)
\<close>

fun impl_agrees_at :: "hypot_impl \<Rightarrow> complex_double \<Rightarrow> bool" where
  "impl_agrees_at impl (Finite x, Finite y) =
     (x = 0 \<or> y = 0 \<or> flt (impl x y) (Finite 2) = (x * x + y * y < 4))"
| "impl_agrees_at impl _ = True"

fun impl_agrees_along :: "hypot_impl \<Rightarrow> nat \<Rightarrow> complex_double \<Rightarrow> complex_double \<Rightarrow> bool" where
  "impl_agrees_along impl 0 c z = True"
| "impl_agrees_along impl (Suc budget) c z =
     (impl_agrees_at impl z \<and>
      (if inside_radius_2 z then impl_agrees_along impl budget c (square_plus z c) else True))"

text \<open>
  The colour mapper as the specification words it: each channel is the formula value
  truncated to an integer and then clamped into \<open>0..255\<close>.
\<close>

definition clamp_channel :: "double \<Rightarrow> 8 word" where
  "clamp_channel d = (case d of Finite q \<Rightarrow> word_of_int (max 0 (min 255 (trunc q))) | _ \<Rightarrow> 0)"

definition reference_color :: "int \<Rightarrow> int \<Rightarrow> 8 word \<times> 8 word \<times> 8 word" where
  "reference_color iterations cap =
     (if iterations = cap then (0, 0, 0)
      else let t = fdiv (int_to_double iterations) (int_to_double cap)
           in (clamp_channel (red_value t), clamp_channel (green_value t),
               clamp_channel (blue_value t)))"

subsection \<open>Notions used to state the properties\<close>

text \<open>
  The complex-plane coordinates of a pixel column and row, the colour the driver computes
  for a pixel, and the three bytes a buffer holds for a pixel.
\<close>

definition pixel_re :: "int \<Rightarrow> double" where
  "pixel_re x = fadd minReal
     (fmul (fdiv (int_to_double x) (int_to_double width)) (fsub maxReal minReal))"

definition pixel_im :: "int \<Rightarrow> double" where
  "pixel_im y = fadd minImag
     (fmul (fdiv (int_to_double y) (int_to_double height)) (fsub maxImag minImag))"

definition pixel_color :: "hypot_impl \<Rightarrow> int \<Rightarrow> int \<Rightarrow> 8 word \<times> 8 word \<times> 8 word" where
  "pixel_color impl x y =
     getColor (mandelbrot impl (pixel_re x) (pixel_im y) maxIterations) maxIterations"

text \<open>
  For the colour channels: a double that is finite and lies between 0 and a bound, and a
  byte that holds the truncation of a finite double reduced modulo 256.
\<close>

definition bounded_by :: "double \<Rightarrow> rat \<Rightarrow> bool" where
  "bounded_by d hi = (case d of Finite q \<Rightarrow> 0 \<le> q \<and> q \<le> hi | _ \<Rightarrow> False)"

definition wrapped :: "double \<Rightarrow> 8 word \<Rightarrow> bool" where
  "wrapped d w = (case d of Finite q \<Rightarrow> uint w = trunc q mod 256 | _ \<Rightarrow> False)"

definition pixel_index :: "int \<Rightarrow> int \<Rightarrow> int" where
  "pixel_index x y = (y * width + x) * 3"

definition pixel_at :: "buffer \<Rightarrow> int \<Rightarrow> int \<Rightarrow> 8 word \<times> 8 word \<times> 8 word" where
  "pixel_at buf x y =
     (buf ! nat (pixel_index x y), buf ! nat (pixel_index x y + 1), buf ! nat (pixel_index x y + 2))"

declare isqrt.simps [simp del]
declare mandelbrot_loop.simps [simp del]
declare inner_loop.simps [simp del]
declare outer_loop.simps [simp del]
declare decimal.simps [simp del]

section \<open>Properties of the driver\<close>

lemma store_in_range:
  "0 \<le> i \<Longrightarrow> i < int (length buf) \<Longrightarrow> store buf i v = Some (buf[nat i := v])"
  by (simp add: store_def)

lemma store_length: "store buf i v = Some buf' \<Longrightarrow> length buf' = length buf"
  by (auto simp: store_def split: if_splits)

lemma pixel_index_bounds:
  "0 \<le> x \<Longrightarrow> x < width \<Longrightarrow> 0 \<le> y \<Longrightarrow> y < height \<Longrightarrow>
   0 \<le> pixel_index x y \<and> pixel_index x y + 2 < width * height * 3"
  by (simp add: pixel_index_def width_def height_def)

lemma pixel_index_distinct:
  assumes "0 \<le> x" "x < width" "0 \<le> x'" "x' < width" "0 \<le> y" "0 \<le> y'" "x' \<noteq> x \<or> y' \<noteq> y"
    and "0 \<le> k" "k \<le> 2" "0 \<le> k'" "k' \<le> 2"
  shows "nat (pixel_index x' y' + k') \<noteq> nat (pixel_index x y + k)"
proof -
  have w: "x < 800" "x' < 800"
    using assms by (simp_all add: width_def)
  have ne: "y' * 800 + x' \<noteq> y * 800 + x"
  proof (cases "y' = y")
    case True
    with assms(7) show ?thesis by simp
  next
    case False
    then consider "y' + 1 \<le> y" | "y + 1 \<le> y'" by linarith
    then show ?thesis
      using w assms(1,3) by cases linarith+
  qed
  define a where "a = y' * 800 + x'"
  define b where "b = y * 800 + x"
  from ne have "a \<noteq> b" by (simp add: a_def b_def)
  then consider "a + 1 \<le> b" | "b + 1 \<le> a"
    by linarith
  then have "a * 3 + k' \<noteq> b * 3 + k"
  proof cases
    case 1
    then have "a * 3 + k' < b * 3 + k"
      using assms(8-11) by linarith
    then show ?thesis by simp
  next
    case 2
    then have "b * 3 + k < a * 3 + k'"
      using assms(8-11) by linarith
    then show ?thesis by simp
  qed
  then have "(y' * 800 + x') * 3 + k' \<noteq> (y * 800 + x) * 3 + k"
    by (simp add: a_def b_def)
  moreover have "0 \<le> (y' * 800 + x') * 3 + k'" "0 \<le> (y * 800 + x) * 3 + k"
    using assms by simp_all
  ultimately show ?thesis
    by (simp add: pixel_index_def width_def)
qed

lemma loop_body_result:
  assumes len: "int (length buf) = width * height * 3"
    and xy: "0 \<le> x" "x < width" "0 \<le> y" "y < height"
    and col: "pixel_color impl x y = (r, g, b)"
  shows "loop_body impl x y buf =
    Some (buf[nat (pixel_index x y) := r, nat (pixel_index x y + 1) := g,
              nat (pixel_index x y + 2) := b])"
proof -
  have b: "0 \<le> pixel_index x y" "pixel_index x y + 2 < int (length buf)"
    using pixel_index_bounds [OF xy] len by simp_all
  have c: "getColor (mandelbrot impl (pixel_re x) (pixel_im y) maxIterations) maxIterations = (r, g, b)"
    using col by (simp add: pixel_color_def)
  have "loop_body impl x y buf =
      Option.bind (store buf (pixel_index x y) r) (\<lambda>buf1.
      Option.bind (store buf1 (pixel_index x y + 1) g) (\<lambda>buf2.
      store buf2 (pixel_index x y + 2) b))"
    unfolding loop_body_def pixel_re_def [symmetric] pixel_im_def [symmetric]
      pixel_index_def [symmetric] Let_def c by simp
  also have "\<dots> = Some (buf[nat (pixel_index x y) := r, nat (pixel_index x y + 1) := g,
              nat (pixel_index x y + 2) := b])"
    using b by (simp add: store_in_range)
  finally show ?thesis .
qed

lemma loop_body_pixel:
  assumes len: "int (length buf) = width * height * 3"
    and xy: "0 \<le> x" "x < width" "0 \<le> y" "y < height"
  shows "\<exists>buf'. loop_body impl x y buf = Some buf' \<and> length buf' = length buf \<and>
           pixel_at buf' x y = pixel_color impl x y \<and>
           (\<forall>x' y'. 0 \<le> x' \<and> x' < width \<and> 0 \<le> y' \<and> (x' \<noteq> x \<or> y' \<noteq> y) \<longrightarrow>
              pixel_at buf' x' y' = pixel_at buf x' y')"
proof -
  obtain r g b where col: "pixel_color impl x y = (r, g, b)"
    by (cases "pixel_color impl x y") auto
  let ?i = "pixel_index x y"
  let ?buf' = "buf[nat ?i := r, nat (?i + 1) := g, nat (?i + 2) := b]"
  have b: "0 \<le> ?i" "?i + 2 < int (length buf)"
    using pixel_index_bounds [OF xy] len by simp_all
  have res: "loop_body impl x y buf = Some ?buf'"
    by (rule loop_body_result [OF len xy col])
  have own: "pixel_at ?buf' x y = pixel_color impl x y"
    using b by (simp add: pixel_at_def col nat_add_distrib)
  have other: "pixel_at ?buf' x' y' = pixel_at buf x' y'"
    if "0 \<le> x'" "x' < width" "0 \<le> y'" "x' \<noteq> x \<or> y' \<noteq> y" for x' y'
  proof -
    have d: "nat (pixel_index x' y' + k') \<noteq> nat (?i + k)"
      if "0 \<le> k" "k \<le> 2" "0 \<le> k'" "k' \<le> 2" for k k'
      by (rule pixel_index_distinct [OF xy(1,2) \<open>0 \<le> x'\<close> \<open>x' < width\<close> xy(3) \<open>0 \<le> y'\<close>
            \<open>x' \<noteq> x \<or> y' \<noteq> y\<close> that])
    have d0: "nat (pixel_index x' y' + k') \<noteq> nat ?i" if "0 \<le> k'" "k' \<le> 2" for k'
      using d [of 0 k'] that by simp
    show ?thesis
      unfolding pixel_at_def
      using d0 [of 0] d0 [of 1] d0 [of 2] d [of 1 0] d [of 1 1] d [of 1 2]
        d [of 2 0] d [of 2 1] d [of 2 2]
      by simp
  qed
  show ?thesis
    using res own other by auto
qed

lemma inner_loop_pixels:
  assumes "int (length buf) = width * height * 3" "0 \<le> x" "x < width" "0 \<le> y0"
  shows "\<exists>buf'. inner_loop impl x y0 buf = Some buf' \<and> length buf' = length buf \<and>
           (\<forall>y. y0 \<le> y \<and> y < height \<longrightarrow> pixel_at buf' x y = pixel_color impl x y) \<and>
           (\<forall>x' y'. 0 \<le> x' \<and> x' < width \<and> 0 \<le> y' \<and> (x' \<noteq> x \<or> y' < y0) \<longrightarrow>
              pixel_at buf' x' y' = pixel_at buf x' y')"
  using assms
proof (induction impl x y0 buf rule: inner_loop.induct)
  case (1 impl x y buf)
  show ?case
  proof (cases "y < height")
    case False
    then have "inner_loop impl x y buf = Some buf"
      by (subst inner_loop.simps) simp
    with False show ?thesis by auto
  next
    case True
    from loop_body_pixel [OF "1.prems"(1,2,3,4) True, where impl = impl]
    obtain buf1 where body: "loop_body impl x y buf = Some buf1" "length buf1 = length buf"
      "pixel_at buf1 x y = pixel_color impl x y"
      and frame1: "\<And>x' y'. 0 \<le> x' \<Longrightarrow> x' < width \<Longrightarrow> 0 \<le> y' \<Longrightarrow> x' \<noteq> x \<or> y' \<noteq> y \<Longrightarrow>
              pixel_at buf1 x' y' = pixel_at buf x' y'"
      by blast
    have len1: "int (length buf1) = width * height * 3"
      using body(2) "1.prems"(1) by simp
    have y1: "0 \<le> y + 1" using "1.prems"(4) by simp
    from "1.IH" [OF True body(1) len1 "1.prems"(2,3) y1]
    obtain buf2 where rest: "inner_loop impl x (y + 1) buf1 = Some buf2" "length buf2 = length buf1"
      and done2: "\<And>y'. y + 1 \<le> y' \<Longrightarrow> y' < height \<Longrightarrow> pixel_at buf2 x y' = pixel_color impl x y'"
      and frame2: "\<And>x' y'. 0 \<le> x' \<Longrightarrow> x' < width \<Longrightarrow> 0 \<le> y' \<Longrightarrow> x' \<noteq> x \<or> y' < y + 1 \<Longrightarrow>
              pixel_at buf2 x' y' = pixel_at buf1 x' y'"
      by blast
    have res: "inner_loop impl x y buf = Some buf2"
      using True body(1) rest(1) by (subst inner_loop.simps) simp
    have len: "length buf2 = length buf"
      using rest(2) body(2) by simp
    have all: "pixel_at buf2 x y' = pixel_color impl x y'" if "y \<le> y'" "y' < height" for y'
    proof (cases "y' = y")
      case True
      have "pixel_at buf2 x y = pixel_at buf1 x y"
        using frame2 [of x y] "1.prems"(2,3,4) by simp
      with body(3) True show ?thesis by simp
    next
      case False
      with that show ?thesis using done2 [of y'] by simp
    qed
    have frame: "pixel_at buf2 x' y' = pixel_at buf x' y'"
      if "0 \<le> x'" "x' < width" "0 \<le> y'" "x' \<noteq> x \<or> y' < y" for x' y'
    proof -
      have "pixel_at buf2 x' y' = pixel_at buf1 x' y'"
        using frame2 [of x' y'] that by auto
      also have "\<dots> = pixel_at buf x' y'"
        using frame1 [of x' y'] that by auto
      finally show ?thesis .
    qed
    show ?thesis
      using res len all frame by auto
  qed
qed

lemma outer_loop_pixels:
  assumes "int (length buf) = width * height * 3" "0 \<le> x0"
  shows "\<exists>buf'. outer_loop impl x0 buf = Some buf' \<and> length buf' = length buf \<and>
           (\<forall>x y. x0 \<le> x \<and> x < width \<and> 0 \<le> y \<and> y < height \<longrightarrow>
              pixel_at buf' x y = pixel_color impl x y) \<and>
           (\<forall>x' y'. 0 \<le> x' \<and> x' < x0 \<and> x' < width \<and> 0 \<le> y' \<longrightarrow>
              pixel_at buf' x' y' = pixel_at buf x' y')"
  using assms
proof (induction impl x0 buf rule: outer_loop.induct)
  case (1 impl x buf)
  show ?case
  proof (cases "x < width")
    case False
    then have "outer_loop impl x buf = Some buf"
      by (subst outer_loop.simps) simp
    with False show ?thesis by auto
  next
    case True
    from inner_loop_pixels [OF "1.prems"(1,2) True, of 0 impl]
    obtain buf1 where col: "inner_loop impl x 0 buf = Some buf1" "length buf1 = length buf"
      and done1: "\<And>y. 0 \<le> y \<Longrightarrow> y < height \<Longrightarrow> pixel_at buf1 x y = pixel_color impl x y"
      and frame1: "\<And>x' y'. 0 \<le> x' \<Longrightarrow> x' < width \<Longrightarrow> 0 \<le> y' \<Longrightarrow> x' \<noteq> x \<Longrightarrow>
              pixel_at buf1 x' y' = pixel_at buf x' y'"
      by auto
    have len1: "int (length buf1) = width * height * 3"
      using col(2) "1.prems"(1) by simp
    have x1: "0 \<le> x + 1" using "1.prems"(2) by simp
    from "1.IH" [OF True col(1) len1 x1]
    obtain buf2 where rest: "outer_loop impl (x + 1) buf1 = Some buf2" "length buf2 = length buf1"
      and done2: "\<And>x' y. x + 1 \<le> x' \<Longrightarrow> x' < width \<Longrightarrow> 0 \<le> y \<Longrightarrow> y < height \<Longrightarrow>
              pixel_at buf2 x' y = pixel_color impl x' y"
      and frame2: "\<And>x' y'. 0 \<le> x' \<Longrightarrow> x' < x + 1 \<Longrightarrow> x' < width \<Longrightarrow> 0 \<le> y' \<Longrightarrow>
              pixel_at buf2 x' y' = pixel_at buf1 x' y'"
      by blast
    have res: "outer_loop impl x buf = Some buf2"
      using True col(1) rest(1) by (subst outer_loop.simps) simp
    have len: "length buf2 = length buf"
      using rest(2) col(2) by simp
    have all: "pixel_at buf2 x' y = pixel_color impl x' y"
      if "x \<le> x'" "x' < width" "0 \<le> y" "y < height" for x' y
    proof (cases "x' = x")
      case True
      have "pixel_at buf2 x y = pixel_at buf1 x y"
        using frame2 [of x y] "1.prems"(2) that True by simp
      with done1 [of y] that True show ?thesis by simp
    next
      case False
      with that show ?thesis using done2 [of x' y] by simp
    qed
    have frame: "pixel_at buf2 x' y' = pixel_at buf x' y'"
      if "0 \<le> x'" "x' < x" "x' < width" "0 \<le> y'" for x' y'
    proof -
      have "pixel_at buf2 x' y' = pixel_at buf1 x' y'"
        using frame2 [of x' y'] that by simp
      also have "\<dots> = pixel_at buf x' y'"
        using frame1 [of x' y'] that by simp
      finally show ?thesis .
    qed
    show ?thesis
      using res len all frame by auto
  qed
qed

lemma initial_image_length: "int (length initial_image) = width * height * 3"
  by (simp add: initial_image_def width_def height_def)

lemma raster_result:
  "\<exists>buf. raster impl = Some buf \<and> length buf = length initial_image \<and>
     (\<forall>x y. 0 \<le> x \<and> x < width \<and> 0 \<le> y \<and> y < height \<longrightarrow> pixel_at buf x y = pixel_color impl x y)"
  using outer_loop_pixels [OF initial_image_length, of 0 impl] unfolding raster_def by auto

section \<open>Evaluating the arithmetic on numerals\<close>

lemma bitlen_numeral:
  "bitlen (numeral (Num.Bit0 n)) = bitlen (numeral n) + 1"
  "bitlen (numeral (Num.Bit1 n)) = bitlen (numeral n) + 1"
  "bitlen 1 = 1"
  by (subst compute_bitlen, simp)+

lemma floor_rat_numeral:
  "\<lfloor>numeral a / numeral b :: rat\<rfloor> = numeral a div numeral b"
  "\<lfloor>- (numeral a / numeral b) :: rat\<rfloor> = - numeral a div numeral b"
  "\<lfloor>1 / numeral b :: rat\<rfloor> = 1 div numeral b"
  "\<lfloor>- (1 / numeral b) :: rat\<rfloor> = - 1 div numeral b"
proof -
  show "\<lfloor>numeral a / numeral b :: rat\<rfloor> = numeral a div numeral b"
    using floor_divide_of_int_eq [of "numeral a" "numeral b", where ?'a = rat] by simp
  show "\<lfloor>- (numeral a / numeral b) :: rat\<rfloor> = - numeral a div numeral b"
    using floor_divide_of_int_eq [of "- numeral a" "numeral b", where ?'a = rat] by simp
  show "\<lfloor>1 / numeral b :: rat\<rfloor> = 1 div numeral b"
    using floor_divide_of_int_eq [of 1 "numeral b", where ?'a = rat] by simp
  show "\<lfloor>- (1 / numeral b) :: rat\<rfloor> = - 1 div numeral b"
    using floor_divide_of_int_eq [of "- 1" "numeral b", where ?'a = rat] by simp
qed

lemma ceiling_rat_numeral:
  "\<lceil>numeral a / numeral b :: rat\<rceil> = - (- numeral a div numeral b)"
  "\<lceil>- (numeral a / numeral b) :: rat\<rceil> = - (numeral a div numeral b)"
  "\<lceil>1 / numeral b :: rat\<rceil> = - (- 1 div numeral b)"
  "\<lceil>- (1 / numeral b) :: rat\<rceil> = - (1 div numeral b)"
  unfolding ceiling_def by (simp_all add: floor_rat_numeral)

lemmas eval_simps = to_double_def overflow_def round_rat_def quantum_def flog2_def rne_def Let_def
  bitlen_numeral signed_inf_def int_to_double_def fsub_def trunc_def
  floor_rat_numeral ceiling_rat_numeral

lemma to_double_small_ints:
  "to_double 0 = Finite 0" "to_double 1 = Finite 1" "to_double 2 = Finite 2"
  "to_double 3 = Finite 3" "to_double 9 = Finite 9" "to_double 15 = Finite 15"
  "to_double 255 = Finite 255" "to_double 800 = Finite 800" "to_double 1000 = Finite 1000"
  by (simp_all add: eval_simps)

lemma to_double_tenth: "to_double (1 / 10) = Finite (3602879701896397 / 2 ^ 55)"
  by (simp add: eval_simps)

lemma span: "fsub maxReal minReal = Finite 3" "fsub maxImag minImag = Finite 3"
  by (simp_all add: maxReal_def minReal_def maxImag_def minImag_def eval_simps)

lemma getColor_750: "getColor 750 1000 = (107, 201, 38)"
  by (simp add: eval_simps getColor_def red_value_def green_value_def blue_value_def)

lemma reference_color_750: "reference_color 750 1000 = (255, 201, 38)"
  by (simp add: eval_simps reference_color_def clamp_channel_def red_value_def green_value_def blue_value_def)

lemma zero_step:
  "cadd (cmul (Finite 0, Finite 0) (Finite 0, Finite 0)) (Finite 0, Finite 0) = (Finite 0, Finite 0)"
  "flt (cabs impl (Finite 0, Finite 0)) (Finite 2)"
  by (simp_all add: cadd_def cmul_def cabs_def eval_simps)

lemma decimal_size: "decimal 1920000 = ''1920000''"
  by (simp add: decimal.simps)

section \<open>The escape-time evaluator\<close>

lemma mandelbrot_loop_range:
  "i \<le> n \<Longrightarrow> i \<le> mandelbrot_loop impl c n z i \<and> mandelbrot_loop impl c n z i \<le> n"
proof (induction impl c n z i rule: mandelbrot_loop.induct)
  case (1 impl c n z i)
  show ?case
  proof (cases "flt (cabs impl z) (Finite 2) \<and> i < n")
    case True
    have "mandelbrot_loop impl c n z i = mandelbrot_loop impl c n (cadd (cmul z z) c) (i + 1)"
      using True by (subst mandelbrot_loop.simps) simp
    with "1.IH" [OF True] True show ?thesis by simp
  next
    case False
    then have "mandelbrot_loop impl c n z i = i"
      by (subst mandelbrot_loop.simps) auto
    with "1.prems" show ?thesis by simp
  qed
qed

lemma origin_loop:
  "i \<le> n \<Longrightarrow> mandelbrot_loop impl (Finite 0, Finite 0) n (Finite 0, Finite 0) i = n"
proof (induction "nat (n - i)" arbitrary: i)
  case 0
  then have "i = n" by simp
  then show ?case by (subst mandelbrot_loop.simps) simp
next
  case (Suc k)
  then have lt: "i < n" and k: "k = nat (n - (i + 1))" and le: "i + 1 \<le> n"
    by linarith+
  have "mandelbrot_loop impl (Finite 0, Finite 0) n (Finite 0, Finite 0) i =
      mandelbrot_loop impl (Finite 0, Finite 0) n (Finite 0, Finite 0) (i + 1)"
    using lt by (subst mandelbrot_loop.simps) (simp add: zero_step)
  with Suc.hyps(1) [OF k le] show ?case by simp
qed

text \<open>
  Claim C5.  At the origin the iteration never leaves 0, so for every positive cap
  \<^verbatim>\<open>mandelbrot(0.0, 0.0, cap)\<close> runs to the cap, whatever the library's \<^verbatim>\<open>hypot\<close> does
  on non-zero arguments.
\<close>

theorem mandelbrot_origin:
  "0 < n \<Longrightarrow> mandelbrot impl (Finite 0) (Finite 0) n = n"
  by (simp add: mandelbrot_def origin_loop)

theorem mandelbrot_origin_witness:
  "(0::int) < 1000 \<and> mandelbrot hypot_nearest (Finite 0) (Finite 0) 1000 = 1000"
  using mandelbrot_origin [of 1000 hypot_nearest] by simp

section \<open>The colour of a point that never escaped\<close>

text \<open>
  Claim C4.  For every positive cap, \<^verbatim>\<open>getColor(cap, cap)\<close> is black.
\<close>

theorem getColor_black:
  "0 < n \<Longrightarrow> getColor n n = (0, 0, 0)"
  by (simp add: getColor_def)

theorem getColor_black_witness:
  "(0::int) < 1000 \<and> getColor 1000 1000 = (0, 0, 0)"
  using getColor_black [of 1000] by simp

section \<open>The pixel buffer\<close>

lemma main_returns:
  assumes "raster impl = Some b"
  shows "\<exists>r. main impl enc = Some r \<and> pixels r = b \<and>
    exit_code r =
      (if enc ''mandelbrot_fractal_pattern.png'' width height 3 b (width * 3) = 0 then 1 else 0)"
proof (cases "enc ''mandelbrot_fractal_pattern.png'' width height 3 b (width * 3) = 0")
  case True
  then show ?thesis unfolding main_def assms by (simp add: Let_def)
next
  case False
  then show ?thesis unfolding main_def assms by (simp add: Let_def)
qed


text \<open>
  Claim C2.  After the two loops, the three bytes of pixel \<open>(x, y)\<close> at offset
  \<open>(y*800 + x)*3\<close> are the colour \<^verbatim>\<open>getColor\<close> gives to the iteration count of the point
  \<open>(-2.0 + (x/800)*3.0, -1.5 + (y/800)*3.0)\<close> under the cap 1000.  The buffer is the
  value of the term \<open>raster impl\<close>: nothing but the constants of the program and the C
  library's \<^verbatim>\<open>hypot\<close> function enters it.
\<close>

theorem raster_pixels:
  assumes "0 \<le> x" "x < 800" "0 \<le> y" "y < 800"
  shows "\<exists>buf. raster impl = Some buf \<and>
    (buf ! nat ((y * 800 + x) * 3), buf ! nat ((y * 800 + x) * 3 + 1),
     buf ! nat ((y * 800 + x) * 3 + 2)) =
    getColor
      (mandelbrot impl
        (fadd (Finite (- 2)) (fmul (fdiv (int_to_double x) (int_to_double 800)) (Finite 3)))
        (fadd (Finite (- 3 / 2)) (fmul (fdiv (int_to_double y) (int_to_double 800)) (Finite 3)))
        1000)
      1000"
proof -
  from raster_result [of impl] obtain buf where buf: "raster impl = Some buf"
    and px: "\<And>x y. 0 \<le> x \<Longrightarrow> x < width \<Longrightarrow> 0 \<le> y \<Longrightarrow> y < height \<Longrightarrow>
               pixel_at buf x y = pixel_color impl x y"
    by blast
  have "pixel_at buf x y = pixel_color impl x y"
    using px [of x y] assms by (simp add: width_def height_def)
  then have "(buf ! nat ((y * 800 + x) * 3), buf ! nat ((y * 800 + x) * 3 + 1),
     buf ! nat ((y * 800 + x) * 3 + 2)) =
    getColor
      (mandelbrot impl
        (fadd (Finite (- 2)) (fmul (fdiv (int_to_double x) (int_to_double 800)) (Finite 3)))
        (fadd (Finite (- 3 / 2)) (fmul (fdiv (int_to_double y) (int_to_double 800)) (Finite 3)))
        1000)
      1000"
    unfolding pixel_at_def pixel_color_def pixel_index_def pixel_re_def pixel_im_def
    unfolding span
    unfolding width_def height_def maxIterations_def minReal_def minImag_def .
  with buf show ?thesis by blast
qed

theorem raster_pixels_witness:
  "(0::int) \<le> 0 \<and> (0::int) < 800 \<and>
   (\<exists>buf. raster hypot_nearest = Some buf \<and>
    (buf ! nat ((0 * 800 + 0) * 3), buf ! nat ((0 * 800 + 0) * 3 + 1),
     buf ! nat ((0 * 800 + 0) * 3 + 2)) =
    getColor
      (mandelbrot hypot_nearest
        (fadd (Finite (- 2)) (fmul (fdiv (int_to_double 0) (int_to_double 800)) (Finite 3)))
        (fadd (Finite (- 3 / 2)) (fmul (fdiv (int_to_double 0) (int_to_double 800)) (Finite 3)))
        1000)
      1000)"
  using raster_pixels [of 0 0 hypot_nearest] by simp

text \<open>
  Claim C7.  The buffer has 1920000 bytes when it is created; every single write keeps
  the length, the buffer that leaves the loops has 1920000 bytes, and so has the buffer
  after the encoder was called, whatever the encoder does.
\<close>

theorem buffer_length_invariant:
  assumes "store buf i v = Some buf'"
  shows "length buf' = length buf
    \<and> length initial_image = 1920000
    \<and> (\<exists>b. raster impl = Some b \<and> length b = 1920000)
    \<and> (\<exists>r. main impl enc = Some r \<and> raster impl = Some (pixels r) \<and> length (pixels r) = 1920000)"
proof -
  have init: "length initial_image = 1920000"
    by (simp add: initial_image_def width_def height_def)
  from raster_result [of impl] obtain b where b: "raster impl = Some b" "length b = length initial_image"
    by blast
  have "\<exists>r. main impl enc = Some r \<and> raster impl = Some (pixels r) \<and> length (pixels r) = 1920000"
    using main_returns [OF b(1), of enc] b init by auto
  then show ?thesis
    using store_length [OF assms] init b by auto
qed

theorem buffer_length_invariant_witness:
  "store [1, 2, 3] 1 7 = Some [1, 7, 3]
    \<and> length [1, 7, 3 :: 8 word] = length [1, 2, 3 :: 8 word]
    \<and> length initial_image = 1920000
    \<and> (\<exists>b. raster hypot_nearest = Some b \<and> length b = 1920000)
    \<and> (\<exists>r. main hypot_nearest (\<lambda>name w h comp data stride. 1) = Some r \<and> raster hypot_nearest = Some (pixels r)
          \<and> length (pixels r) = 1920000)"
proof -
  have s: "store [1, 2, 3] 1 7 = Some [1, 7, 3]"
    by (simp add: store_def)
  show ?thesis
    using s buffer_length_invariant [OF s, of hypot_nearest "\<lambda>name w h comp data stride. 1"] by simp
qed

text \<open>
  Claim C10.  For every pixel of the 800 by 800 grid the three indices written are inside
  the buffer of 1920000 bytes, and the loops as a whole never write outside it: the
  model's out-of-range result \<open>None\<close> does not occur.
\<close>

theorem raster_in_bounds:
  assumes "0 \<le> x" "x < 800" "0 \<le> y" "y < 800"
  shows "0 \<le> (y * 800 + x) * 3
    \<and> (y * 800 + x) * 3 + 2 < int (length initial_image)
    \<and> length initial_image = 1920000
    \<and> (\<forall>buf. length buf = length initial_image \<longrightarrow> loop_body impl x y buf \<noteq> None)
    \<and> raster impl \<noteq> None"
proof -
  have xy: "0 \<le> x" "x < width" "0 \<le> y" "y < height"
    using assms by (simp_all add: width_def height_def)
  have init: "length initial_image = 1920000"
    by (simp add: initial_image_def width_def height_def)
  have idx: "0 \<le> (y * 800 + x) * 3" "(y * 800 + x) * 3 + 2 < 1920000"
    using pixel_index_bounds [OF xy] by (simp_all add: pixel_index_def width_def height_def)
  have body: "loop_body impl x y buf \<noteq> None" if "length buf = length initial_image" for buf
  proof -
    have "int (length buf) = width * height * 3"
      using that initial_image_length by simp
    from loop_body_pixel [OF this xy, where impl = impl] show ?thesis by auto
  qed
  from raster_result [of impl] have "raster impl \<noteq> None" by auto
  with idx init body show ?thesis by simp
qed

theorem raster_in_bounds_witness:
  "(0::int) \<le> 799 \<and> (799::int) < 800
    \<and> (0::int) \<le> (799 * 800 + 799) * 3
    \<and> (799 * 800 + 799) * 3 + 2 < int (length initial_image)
    \<and> length initial_image = 1920000
    \<and> loop_body hypot_nearest 799 799 initial_image \<noteq> None
    \<and> raster hypot_nearest \<noteq> None"
  using raster_in_bounds [of 799 799 hypot_nearest] by simp

section \<open>The exit code\<close>

text \<open>
  Claim C8.  The program always reaches its end (no undefined buffer access on the way);
  its exit code is 1 when the encoder returns 0, its failure value, and 0 otherwise, so a
  failing encoder is the only way to a non-zero exit code.
\<close>

theorem exit_code_follows_encoder:
  "\<exists>r. main impl enc = Some r \<and> raster impl = Some (pixels r)
     \<and> exit_code r =
         (if enc ''mandelbrot_fractal_pattern.png'' 800 800 3 (pixels r) 2400 = 0 then 1 else 0)
     \<and> (exit_code r \<noteq> 0) = (enc ''mandelbrot_fractal_pattern.png'' 800 800 3 (pixels r) 2400 = 0)"
proof -
  from raster_result [of impl] obtain b where b: "raster impl = Some b"
    by blast
  from main_returns [OF this, of enc] b show ?thesis
    by (auto simp: width_def height_def)
qed

theorem exit_code_follows_encoder_witness:
  "(\<exists>r. main hypot_nearest (\<lambda>name w h comp data stride. 0) = Some r \<and> exit_code r = 1)
   \<and> (\<exists>r. main hypot_nearest (\<lambda>name w h comp data stride. 1) = Some r \<and> exit_code r = 0)"
  using exit_code_follows_encoder [of hypot_nearest "\<lambda>name w h comp data stride. 0"]
    exit_code_follows_encoder [of hypot_nearest "\<lambda>name w h comp data stride. 1"]
  by auto

section \<open>Properties of rounding\<close>

subsection \<open>The binary exponent\<close>

lemma powi_mono: "a \<le> b \<Longrightarrow> (2::rat) powi a \<le> 2 powi b"
  by (rule power_int_increasing) simp_all

lemma powi_less_exp: "(2::rat) powi a < 2 powi b \<Longrightarrow> a < b"
proof (rule ccontr)
  assume lt: "(2::rat) powi a < 2 powi b" and "\<not> a < b"
  then have "b \<le> a" by simp
  from powi_mono [OF this] lt show False by simp
qed

lemma powi_add: "(2::rat) powi (a + b) = 2 powi a * 2 powi b"
  by (simp add: power_int_add)

lemma powi_diff: "(2::rat) powi (a - b) = 2 powi a / 2 powi b"
  by (simp add: power_int_diff)

lemma powi_nat: "0 \<le> a \<Longrightarrow> (2::rat) powi a = of_int (2 ^ nat a)"
  by (simp add: power_int_nonneg_exp)

lemma less_powi_minus: "a * 2 powi k < 1 \<Longrightarrow> a < (2::rat) powi (- k)"
proof -
  assume "a * 2 powi k < 1"
  moreover have "0 < (2::rat) powi k" by simp
  ultimately have "a < 1 / 2 powi k" by (simp add: pos_less_divide_eq)
  then show ?thesis by (simp only: power_int_minus_divide)
qed

lemma powi_minus_le: "1 \<le> a * 2 powi k \<Longrightarrow> (2::rat) powi (- k) \<le> a"
proof -
  assume "1 \<le> a * 2 powi k"
  moreover have "0 < (2::rat) powi k" by simp
  ultimately have "1 / 2 powi k \<le> a" by (simp add: pos_divide_le_eq)
  then show ?thesis by (simp only: power_int_minus_divide)
qed

lemma flog2_bounds:
  assumes "0 < a"
  shows "2 powi flog2 a \<le> a" and "a < 2 powi (flog2 a + 1)"
proof -
  have "2 powi flog2 a \<le> a \<and> a < 2 powi (flog2 a + 1)"
  proof (cases "1 \<le> a")
    case True
    define n where "n = \<lfloor>a\<rfloor>"
    have n: "0 < n" "of_int n \<le> a" "a < of_int (n + 1)"
      using True by (simp_all add: n_def) linarith+
    from bitlen_bounds [OF n(1)]
    have b: "2 ^ nat (bitlen n - 1) \<le> n" "n < 2 ^ nat (bitlen n)" by simp_all
    have b1: "1 \<le> bitlen n"
      using n(1) bitlen_eq_zero_iff [of n] bitlen_nonneg [of n] by linarith
    have e: "flog2 a = bitlen n - 1"
      using True by (simp add: flog2_def n_def)
    have "(2::rat) powi (bitlen n - 1) = of_int (2 ^ nat (bitlen n - 1))"
      using b1 by (simp add: powi_nat)
    also have "\<dots> \<le> of_int n" using b(1) by (simp only: of_int_le_iff)
    finally have lo: "2 powi (bitlen n - 1) \<le> a" using n(2) by simp
    have "n + 1 \<le> 2 ^ nat (bitlen n)" using b(2) by simp
    then have "(of_int (n + 1) :: rat) \<le> of_int (2 ^ nat (bitlen n))"
      by (simp only: of_int_le_iff)
    also have "\<dots> = 2 powi bitlen n"
      using b1 by (simp add: powi_nat)
    finally have hi: "a < 2 powi bitlen n" using n(3) by simp
    show ?thesis using lo hi by (simp add: e)
  next
    case False
    define m where "m = \<lceil>1 / a\<rceil>"
    have inv: "1 < 1 / a" using False assms by simp
    have m: "1 / a \<le> of_int m" "of_int m < 1 / a + 1"
      by (simp_all add: m_def) linarith
    have "(of_int 1 :: rat) < of_int m"
      using inv m(1) by simp
    then have "1 < m"
      by (simp only: of_int_less_iff)
    then have m2: "0 < m - 1"
      by simp
    from bitlen_bounds [OF m2]
    have b: "2 ^ nat (bitlen (m - 1) - 1) \<le> m - 1" "m - 1 < 2 ^ nat (bitlen (m - 1))"
      by simp_all
    have b1: "1 \<le> bitlen (m - 1)"
      using m2 bitlen_eq_zero_iff [of "m - 1"] bitlen_nonneg [of "m - 1"] by linarith
    have e: "flog2 a = - bitlen (m - 1)"
      using False by (simp add: flog2_def m_def)
    have "m \<le> 2 ^ nat (bitlen (m - 1))" using b(2) by simp
    then have "(of_int m :: rat) \<le> of_int (2 ^ nat (bitlen (m - 1)))"
      by (simp only: of_int_le_iff)
    also have "\<dots> = 2 powi bitlen (m - 1)"
      using b1 by (simp add: powi_nat)
    finally have "1 / a \<le> 2 powi bitlen (m - 1)" using m(1) by simp
    then have "1 \<le> a * 2 powi bitlen (m - 1)"
      using assms by (simp add: field_simps)
    then have lo: "2 powi (- bitlen (m - 1)) \<le> a"
      by (rule powi_minus_le)
    have "(2::rat) powi (bitlen (m - 1) - 1) = of_int (2 ^ nat (bitlen (m - 1) - 1))"
      using b1 by (simp add: powi_nat)
    also have "\<dots> \<le> of_int (m - 1)" using b(1) by (simp only: of_int_le_iff)
    also have "\<dots> < 1 / a" using m(2) by simp
    finally have "a * 2 powi (bitlen (m - 1) - 1) < 1"
      using assms by (simp add: field_simps)
    then have "a < 2 powi (- (bitlen (m - 1) - 1))"
      by (rule less_powi_minus)
    moreover have "- (bitlen (m - 1) - 1) = - bitlen (m - 1) + 1"
      by simp
    ultimately have hi: "a < 2 powi (- bitlen (m - 1) + 1)"
      by (simp only:)
    show ?thesis using lo hi by (simp add: e)
  qed
  then show "2 powi flog2 a \<le> a" and "a < 2 powi (flog2 a + 1)" by simp_all
qed

lemma flog2_le: "0 < a \<Longrightarrow> a < 2 powi (e + 1) \<Longrightarrow> flog2 a \<le> e"
  using flog2_bounds(1) [of a] powi_less_exp [of "flog2 a" "e + 1"] by simp

lemma flog2_ge: "0 < a \<Longrightarrow> 2 powi e \<le> a \<Longrightarrow> e \<le> flog2 a"
  using flog2_bounds(2) [of a] powi_less_exp [of e "flog2 a + 1"] by simp

lemma flog2_mono: "0 < a \<Longrightarrow> a \<le> b \<Longrightarrow> flog2 a \<le> flog2 b"
  using flog2_bounds(1) [of a] flog2_ge [of b "flog2 a"] by simp

subsection \<open>Rounding to an integer\<close>

lemma rne_of_int: "rne (of_int n) = n"
  by (simp add: rne_def)

lemma rne_ge: "of_int n \<le> x \<Longrightarrow> n \<le> rne x"
proof -
  assume "of_int n \<le> x"
  then have "n \<le> \<lfloor>x\<rfloor>" by (simp add: le_floor_iff)
  moreover have "\<lfloor>x\<rfloor> \<le> rne x" by (simp add: rne_def Let_def)
  ultimately show ?thesis by simp
qed

lemma rne_le: "x \<le> of_int n \<Longrightarrow> rne x \<le> n"
proof (cases "x = of_int n")
  case True
  then show ?thesis by (simp add: rne_of_int)
next
  case False
  assume "x \<le> of_int n"
  with False have "x < of_int n" by simp
  then have "\<lfloor>x\<rfloor> < n" by (simp add: floor_less_iff)
  moreover have "rne x \<le> \<lfloor>x\<rfloor> + 1" by (simp add: rne_def Let_def)
  ultimately show ?thesis by simp
qed

lemma rne_error: "\<bar>of_int (rne x) - x\<bar> \<le> 1 / 2"
proof -
  have "of_int \<lfloor>x\<rfloor> \<le> x" "x < of_int \<lfloor>x\<rfloor> + 1" by linarith+
  then show ?thesis
    by (auto simp: rne_def Let_def abs_le_iff)
qed

lemma rne_minus: "rne (- x) = - rne x"
proof (cases "x = of_int \<lfloor>x\<rfloor>")
  case True
  then obtain n where "x = of_int n" ..
  then show ?thesis
    using rne_of_int [of n] rne_of_int [of "- n"] by simp
next
  case False
  then have c: "\<lceil>x\<rceil> = \<lfloor>x\<rfloor> + 1"
    by (simp add: ceiling_altdef)
  have f: "\<lfloor>- x\<rfloor> = - \<lfloor>x\<rfloor> - 1"
    using c by (simp add: floor_minus)
  have "of_int \<lfloor>x\<rfloor> \<le> x" "x < of_int \<lfloor>x\<rfloor> + 1" by linarith+
  then show ?thesis
    unfolding rne_def Let_def f by auto
qed

subsection \<open>Rounding to a double\<close>

lemma quantum_minus: "quantum (- q) = quantum q"
  by (simp add: quantum_def)

lemma quantum_lower: "- 1074 \<le> quantum q"
  by (simp add: quantum_def)

lemma quantum_upper:
  assumes "q \<noteq> 0" "\<bar>q\<bar> < 2 powi (e + 1)" "- 1022 \<le> e"
  shows "quantum q \<le> e - 52"
proof -
  have "flog2 \<bar>q\<bar> \<le> e"
    using flog2_le [of "\<bar>q\<bar>" e] assms by simp
  with assms(3) show ?thesis by (simp add: quantum_def)
qed

lemma quantum_mono: "a \<noteq> 0 \<Longrightarrow> \<bar>a\<bar> \<le> \<bar>b\<bar> \<Longrightarrow> quantum a \<le> quantum b"
proof -
  assume "a \<noteq> 0" "\<bar>a\<bar> \<le> \<bar>b\<bar>"
  then have "flog2 \<bar>a\<bar> \<le> flog2 \<bar>b\<bar>"
    using flog2_mono [of "\<bar>a\<bar>" "\<bar>b\<bar>"] by simp
  then show ?thesis by (simp add: quantum_def)
qed

lemma round_rat_minus: "round_rat (- q) = - round_rat q"
  by (simp add: round_rat_def quantum_minus rne_minus)

lemma round_rat_grid_ge:
  assumes "of_int n * 2 powi quantum x \<le> x"
  shows "of_int n * 2 powi quantum x \<le> round_rat x"
proof (cases "x = 0")
  case True
  with assms show ?thesis by (simp add: round_rat_def)
next
  case False
  have p: "0 < (2::rat) powi quantum x" by simp
  from assms p have "of_int n \<le> x / 2 powi quantum x"
    by (simp add: pos_le_divide_eq)
  then have "n \<le> rne (x / 2 powi quantum x)"
    by (rule rne_ge)
  then have "(of_int n :: rat) \<le> of_int (rne (x / 2 powi quantum x))"
    by (simp only: of_int_le_iff)
  then have "(of_int n :: rat) * 2 powi quantum x
      \<le> of_int (rne (x / 2 powi quantum x)) * 2 powi quantum x"
    using p by (simp only: mult_le_cancel_right_pos)
  with False show ?thesis by (simp add: round_rat_def)
qed

lemma on_grid: "round_rat d = d \<Longrightarrow> \<exists>n. d = of_int n * 2 powi quantum d"
proof (cases "d = 0")
  case True
  then have "d = of_int 0 * 2 powi quantum d" by simp
  then show ?thesis ..
next
  case False
  assume "round_rat d = d"
  with False have "d = of_int (rne (d / 2 powi quantum d)) * 2 powi quantum d"
    by (simp add: round_rat_def)
  then show ?thesis ..
qed

lemma grid_coarser:
  assumes "(d::rat) = of_int n * 2 powi k" "j \<le> k"
  shows "\<exists>m. d = of_int m * 2 powi j"
proof -
  have "(2::rat) powi k = 2 powi (k - j) * 2 powi j"
    using powi_add [of "k - j" j] by simp
  also have "(2::rat) powi (k - j) = of_int (2 ^ nat (k - j))"
    using assms(2) by (simp add: powi_nat)
  finally have "d = of_int (n * 2 ^ nat (k - j)) * 2 powi j"
    using assms(1) by simp
  then show ?thesis ..
qed

lemma round_rat_exact:
  assumes "d = of_int n * 2 powi k" "quantum d \<le> k"
  shows "round_rat d = d"
proof (cases "d = 0")
  case True
  then show ?thesis by (simp add: round_rat_def)
next
  case False
  from grid_coarser [OF assms] obtain m where m: "d = of_int m * 2 powi quantum d"
    by blast
  have "d / 2 powi quantum d = of_int m"
    by (subst m) simp
  then have "rne (d / 2 powi quantum d) = m"
    by (simp add: rne_of_int)
  with False m show ?thesis by (simp add: round_rat_def)
qed

lemma round_rat_ge:
  assumes "round_rat d = d" "d \<le> x"
  shows "d \<le> round_rat x"
proof -
  consider "d \<le> 0 \<and> 0 \<le> x" | "0 < d" | "x < 0" by linarith
  then show ?thesis
  proof cases
    case 1
    then have "of_int 0 * 2 powi quantum x \<le> x" by simp
    from round_rat_grid_ge [OF this] 1 show ?thesis by simp
  next
    case 2
    with assms(2) have x: "0 < x" by simp
    from on_grid [OF assms(1)] obtain n where n: "d = of_int n * 2 powi quantum d"
      by blast
    have le: "quantum d \<le> quantum x"
      using quantum_mono [of d x] 2 assms(2) by simp
    show ?thesis
    proof (cases "quantum d = quantum x")
      case True
      with n assms(2) have "of_int n * 2 powi quantum x \<le> x" by simp
      from round_rat_grid_ge [OF this] n True show ?thesis by simp
    next
      case False
      with le have lt: "quantum d < quantum x" by simp
      have qd: "quantum d = max (flog2 d) (- 1022) - 52"
        using 2 by (simp add: quantum_def)
      have qx: "quantum x = max (flog2 x) (- 1022) - 52"
        using x by (simp add: quantum_def)
      from lt qd qx have e: "flog2 d + 1 \<le> flog2 x" "quantum x = flog2 x - 52"
        by linarith+
      have "(2::rat) powi flog2 x = 2 powi 52 * 2 powi (flog2 x - 52)"
        using powi_add [of 52 "flog2 x - 52"] by simp
      also have "\<dots> = of_int (2 ^ 52) * 2 powi quantum x"
        by (simp add: e(2))
      finally have g: "(2::rat) powi flog2 x = of_int (2 ^ 52) * 2 powi quantum x" .
      have "of_int (2 ^ 52) * 2 powi quantum x \<le> x"
        using flog2_bounds(1) [OF x] by (simp only: g [symmetric])
      from round_rat_grid_ge [OF this] have "2 powi flog2 x \<le> round_rat x"
        by (simp only: g [symmetric])
      moreover have "d < 2 powi (flog2 d + 1)"
        using flog2_bounds(2) [OF 2] .
      moreover have "(2::rat) powi (flog2 d + 1) \<le> 2 powi flog2 x"
        using e(1) by (rule powi_mono)
      ultimately show ?thesis by linarith
    qed
  next
    case 3
    with assms(2) have "x \<noteq> 0" "\<bar>x\<bar> \<le> \<bar>d\<bar>" by simp_all
    then have le: "quantum x \<le> quantum d"
      by (rule quantum_mono)
    from on_grid [OF assms(1)] obtain n where "d = of_int n * 2 powi quantum d"
      by blast
    from grid_coarser [OF this le] obtain m where m: "d = of_int m * 2 powi quantum x"
      by blast
    with assms(2) have "of_int m * 2 powi quantum x \<le> x" by simp
    from round_rat_grid_ge [OF this] m show ?thesis by simp
  qed
qed

lemma round_rat_le:
  assumes "round_rat d = d" "x \<le> d"
  shows "round_rat x \<le> d"
  using round_rat_ge [of "- d" "- x"] assms by (simp add: round_rat_minus)

lemma round_rat_error: "\<bar>round_rat q - q\<bar> \<le> 2 powi (quantum q - 1)"
proof (cases "q = 0")
  case True
  then show ?thesis by (simp add: round_rat_def)
next
  case False
  define p :: rat where "p = 2 powi quantum q"
  define y where "y = q / p"
  have p: "0 < p" by (simp add: p_def)
  have q: "q = y * p" using p by (simp add: y_def)
  have r: "round_rat q = of_int (rne y) * p"
    using False by (simp add: round_rat_def p_def y_def)
  have "of_int (rne y) * p - y * p = (of_int (rne y) - y) * p"
    by (simp add: algebra_simps)
  then have "round_rat q - q = (of_int (rne y) - y) * p"
    unfolding r using q by simp
  then have "\<bar>round_rat q - q\<bar> = \<bar>of_int (rne y) - y\<bar> * p"
    using p by (simp add: abs_mult)
  also have "\<dots> \<le> 1 / 2 * p"
    using rne_error [of y] p by (simp only: mult_le_cancel_right_pos)
  also have "\<dots> = 2 powi (quantum q - 1)"
    by (simp add: p_def powi_diff)
  finally show ?thesis .
qed

lemma round_rat_error_bound:
  assumes "\<bar>q\<bar> < 2 powi (e + 1)" "- 1022 \<le> e"
  shows "\<bar>round_rat q - q\<bar> \<le> 2 powi (e - 53)"
proof (cases "q = 0")
  case True
  then show ?thesis by (simp add: round_rat_def)
next
  case False
  from quantum_upper [OF False assms] have "quantum q - 1 \<le> e - 53" by simp
  then have "(2::rat) powi (quantum q - 1) \<le> 2 powi (e - 53)"
    by (rule powi_mono)
  with round_rat_error [of q] show ?thesis by linarith
qed

subsection \<open>Results that stay finite\<close>

lemma overflow_small: "\<bar>r\<bar> < 2 powi 1024 \<Longrightarrow> overflow r = Finite r"
  using flog2_le [of "\<bar>r\<bar>" 1023] by (auto simp: overflow_def)

lemma is_double_round: "is_double d \<Longrightarrow> round_rat d = d"
  by (auto simp: is_double_def to_double_def overflow_def signed_inf_def split: if_splits)

lemma to_double_between:
  assumes "round_rat lo = lo" "round_rat hi = hi" "lo \<le> q" "q \<le> hi"
    and "- (2 powi 1024) < lo" "hi < 2 powi 1024"
  shows "to_double q = Finite (round_rat q) \<and> lo \<le> round_rat q \<and> round_rat q \<le> hi"
proof -
  have b: "lo \<le> round_rat q" "round_rat q \<le> hi"
    using round_rat_ge [OF assms(1,3)] round_rat_le [OF assms(2,4)] by simp_all
  with assms(5,6) have "\<bar>round_rat q\<bar> < 2 powi 1024" by linarith
  from overflow_small [OF this] b show ?thesis by (simp add: to_double_def)
qed

subsection \<open>The square root and the escape test\<close>

lemma isqrt_bounds:
  "0 \<le> n \<Longrightarrow> 0 \<le> isqrt n \<and> isqrt n * isqrt n \<le> n \<and> n < (isqrt n + 1) * (isqrt n + 1)"
proof (induction n rule: isqrt.induct)
  case (1 n)
  show ?case
  proof (cases "n < 1")
    case True
    with "1.prems" have "n = 0" by simp
    moreover have "isqrt 0 = 0" by (subst isqrt.simps) simp
    ultimately show ?thesis by simp
  next
    case False
    define q where "q = n div 4"
    define s where "s = isqrt q"
    have q0: "0 \<le> q" using "1.prems" by (simp add: q_def)
    from "1.IH" [OF False] q0
    have ih: "0 \<le> s" "s * s \<le> q" "q < (s + 1) * (s + 1)"
      by (simp_all add: s_def q_def)
    have n: "4 * q \<le> n" "n < 4 * q + 4"
      by (simp_all add: q_def)
    have sq: "(s + 1) * (s + 1) = s * s + 2 * s + 1"
      by (simp add: algebra_simps)
    have sq1: "(2 * s + 1) * (2 * s + 1) = 4 * (s * s) + 4 * s + 1"
      by (simp add: algebra_simps)
    have sq2: "(2 * s + 1 + 1) * (2 * s + 1 + 1) = 4 * (s * s) + 8 * s + 4"
      by (simp add: algebra_simps)
    have sq0: "2 * s * (2 * s) = 4 * (s * s)"
      by simp
    have val: "isqrt n = (if (2 * s + 1) * (2 * s + 1) \<le> n then 2 * s + 1 else 2 * s)"
      using False by (subst isqrt.simps) (simp add: s_def q_def Let_def)
    show ?thesis
    proof (cases "(2 * s + 1) * (2 * s + 1) \<le> n")
      case True
      then have v: "isqrt n = 2 * s + 1" using val by simp
      have "n < (2 * s + 1 + 1) * (2 * s + 1 + 1)"
        unfolding sq2 using n(2) ih(3) unfolding sq by linarith
      with True ih(1) show ?thesis unfolding v by simp
    next
      case False
      then have v: "isqrt n = 2 * s" using val by simp
      have "2 * s * (2 * s) \<le> n"
        unfolding sq0 using n(1) ih(2) by linarith
      with False ih(1) show ?thesis unfolding v by simp
    qed
  qed
qed

lemma sqrt_double_ge_2:
  assumes "4 \<le> s"
  shows "\<not> flt (sqrt_double s) (Finite 2)"
proof -
  have s0: "0 < s" using assms by simp
  define e where "e = flog2 s div 2"
  define k where "k = max (flog2 s div 2) (- 1022) - 52"
  define x where "x = s / 2 powi (2 * k)"
  define m where "m = isqrt \<lfloor>x\<rfloor>"
  define h where "h = (of_int m + 1 / 2) * (of_int m + 1 / 2 :: rat)"
  define n where "n = (if x < h then m else if h < x then m + 1 else if even m then m else m + 1)"
  have sd: "sqrt_double s = overflow (of_int n * 2 powi k)"
    using s0 by (simp add: sqrt_double_def Let_def n_def h_def m_def x_def k_def)
  have "(2::rat) powi 2 \<le> s" using assms by simp
  from flog2_ge [OF s0 this] have fl: "2 \<le> flog2 s" .
  then have e1: "1 \<le> e" and e2: "2 * e \<le> flog2 s"
    by (simp_all add: e_def)
  have k: "k = e - 52"
    using e1 by (simp add: k_def e_def)
  have "(2::rat) powi (2 * e) \<le> 2 powi flog2 s"
    using e2 by (rule powi_mono)
  also have "\<dots> \<le> s" by (rule flog2_bounds(1) [OF s0])
  finally have "2 powi (2 * e) / 2 powi (2 * k) \<le> x"
    unfolding x_def by (simp add: divide_right_mono)
  moreover have "(2::rat) powi (2 * e) / 2 powi (2 * k) = 2 powi 104"
    using powi_diff [of "2 * e" "2 * k"] by (simp add: k)
  ultimately have "(of_int (2 ^ 104) :: rat) \<le> x"
    by simp
  then have fx: "2 ^ 104 \<le> \<lfloor>x\<rfloor>"
    by (simp only: le_floor_iff)
  then have "0 \<le> \<lfloor>x\<rfloor>" by simp
  from isqrt_bounds [OF this] have m: "0 \<le> m" "\<lfloor>x\<rfloor> < (m + 1) * (m + 1)"
    by (simp_all add: m_def)
  have m52: "2 ^ 52 \<le> m"
  proof (rule ccontr)
    assume "\<not> 2 ^ 52 \<le> m"
    then have "m + 1 \<le> 2 ^ 52" by simp
    with m(1) have "(m + 1) * (m + 1) \<le> 2 ^ 52 * 2 ^ 52"
      by (intro mult_mono) simp_all
    also have "(2::int) ^ 52 * 2 ^ 52 = 2 ^ 104" by simp
    finally have "\<lfloor>x\<rfloor> < 2 ^ 104" using m(2) by linarith
    with fx show False by linarith
  qed
  have "m \<le> n" by (simp add: n_def)
  with m52 have "2 ^ 52 \<le> n" by linarith
  then have "(of_int (2 ^ 52) :: rat) \<le> of_int n"
    by (simp only: of_int_le_iff)
  then have prod: "of_int (2 ^ 52) * 2 powi k \<le> of_int n * (2::rat) powi k"
    by (simp only: mult_le_cancel_right_pos zero_less_power_int zero_less_numeral)
  have "(2::rat) = 2 powi 1" by simp
  also have "\<dots> \<le> 2 powi e"
    using e1 by (rule powi_mono)
  also have "\<dots> = of_int (2 ^ 52) * 2 powi k"
    using powi_add [of 52 "e - 52"] by (simp add: k)
  also note prod
  finally have r: "2 \<le> of_int n * (2::rat) powi k" .
  show ?thesis
    unfolding sd using r by (simp add: overflow_def signed_inf_def)
qed

lemma hypot_nearest_escape:
  "4 \<le> a * a + b * b \<Longrightarrow> \<not> flt (hypot_nearest a b) (Finite 2)"
  by (simp add: hypot_nearest_def sqrt_double_ge_2)

lemma isqrt_unique:
  assumes "0 \<le> m" "m * m \<le> n" "n < (m + 1) * (m + 1)"
  shows "isqrt n = m"
proof -
  have "0 \<le> n"
    using zero_le_square [of m] assms(2) by linarith
  from isqrt_bounds [OF this]
  have r: "0 \<le> isqrt n" "isqrt n * isqrt n \<le> n" "n < (isqrt n + 1) * (isqrt n + 1)"
    by simp_all
  have "\<not> isqrt n < m"
  proof
    assume "isqrt n < m"
    then have "isqrt n + 1 \<le> m" by simp
    with r(1) have "(isqrt n + 1) * (isqrt n + 1) \<le> m * m"
      by (intro mult_mono) simp_all
    with r(3) assms(2) show False by simp
  qed
  moreover have "\<not> m < isqrt n"
  proof
    assume "m < isqrt n"
    then have "m + 1 \<le> isqrt n" by simp
    with assms(1) have "(m + 1) * (m + 1) \<le> isqrt n * isqrt n"
      by (intro mult_mono) simp_all
    with r(2) assms(3) show False by simp
  qed
  ultimately show ?thesis by simp
qed

lemma sqrt_double_certificate:
  assumes "0 < s" and "k = max (flog2 s div 2) (- 1022) - 52"
    and "0 \<le> m" "of_int (m * m) \<le> s / 2 powi (2 * k)"
      "s / 2 powi (2 * k) < of_int ((m + 1) * (m + 1))"
  shows "sqrt_double s = overflow (of_int
    (if s / 2 powi (2 * k) < (of_int m + 1 / 2) * (of_int m + 1 / 2) then m
     else if (of_int m + 1 / 2) * (of_int m + 1 / 2) < s / 2 powi (2 * k) then m + 1
     else if even m then m else m + 1) * 2 powi k)"
proof -
  have "m * m \<le> \<lfloor>s / 2 powi (2 * k)\<rfloor>"
    using assms(4) by (simp only: le_floor_iff)
  moreover have "\<lfloor>s / 2 powi (2 * k)\<rfloor> < (m + 1) * (m + 1)"
    using assms(5) by (simp only: floor_less_iff)
  ultimately have iq: "isqrt \<lfloor>s / 2 powi (2 * k)\<rfloor> = m"
    using assms(3) by (intro isqrt_unique)
  have ns: "\<not> s \<le> 0" using assms(1) by simp
  show ?thesis
    unfolding sqrt_double_def Let_def assms(2) [symmetric] iq if_not_P [OF ns]
    by (rule refl)
qed

lemma sqrt_double_2: "sqrt_double 2 = Finite (6369051672525773 / 2 ^ 52)"
  by (subst sqrt_double_certificate [where k = "- 52" and m = 6369051672525772])
    (simp_all add: eval_simps)

section \<open>The escape-time evaluator against the reference definition\<close>

lemma fmul_commute: "fmul x y = fmul y x"
  by (cases x; cases y) (simp_all add: mult.commute)

lemma fadd_twice: "fadd r r = fmul (Finite 2) r"
  by (cases r) (simp_all add: signed_inf_def)

lemma step_is_square_plus: "cadd (cmul z z) c = square_plus z c"
proof (cases z; cases c)
  fix x y cr ci
  assume "z = (x, y)" "c = (cr, ci)"
  moreover have "fadd (fmul x y) (fmul y x) = fmul (Finite 2) (fmul x y)"
    using fmul_commute [of y x] fadd_twice [of "fmul x y"] by simp
  ultimately show ?thesis
    by (simp add: cadd_def cmul_def)
qed

lemma abs_less_2: "(\<bar>x\<bar> < 2) = (x * x < 4)" for x :: rat
proof
  assume "\<bar>x\<bar> < 2"
  then have "\<bar>x\<bar> * \<bar>x\<bar> < 2 * 2"
    by (intro mult_strict_mono) simp_all
  then show "x * x < 4" by simp
next
  assume sq: "x * x < 4"
  show "\<bar>x\<bar> < 2"
  proof (rule ccontr)
    assume "\<not> \<bar>x\<bar> < 2"
    then have "2 * 2 \<le> \<bar>x\<bar> * \<bar>x\<bar>"
      by (intro mult_mono) simp_all
    with sq show False by simp
  qed
qed

lemma cabs_agrees:
  "impl_agrees_at impl z \<Longrightarrow> flt (cabs impl z) (Finite 2) = inside_radius_2 z"
proof (cases z)
  case (Pair re im)
  assume ag: "impl_agrees_at impl z"
  show ?thesis
  proof (cases re)
    case re: (Finite x)
    show ?thesis
    proof (cases im)
      case (Finite y)
      with ag Pair re show ?thesis
        by (auto simp: cabs_def abs_less_2)
    qed (simp_all add: Pair re cabs_def)
  qed (cases im; simp add: Pair cabs_def)+
qed

lemma mandelbrot_loop_reference:
  "i \<le> n \<Longrightarrow> impl_agrees_along impl (nat (n - i)) c z \<Longrightarrow>
   mandelbrot_loop impl c n z i = i + int (escape_steps (nat (n - i)) c z)"
proof (induction impl c n z i rule: mandelbrot_loop.induct)
  case (1 impl c n z i)
  show ?case
  proof (cases "i < n")
    case False
    with "1.prems"(1) have "i = n" by simp
    then show ?thesis by (subst mandelbrot_loop.simps) simp
  next
    case True
    then have budget: "nat (n - i) = Suc (nat (n - (i + 1)))"
      by linarith
    from "1.prems"(2) have ag: "impl_agrees_at impl z"
      and rest: "inside_radius_2 z \<Longrightarrow>
        impl_agrees_along impl (nat (n - (i + 1))) c (square_plus z c)"
      unfolding budget by (simp_all split: if_splits)
    have test: "flt (cabs impl z) (Finite 2) = inside_radius_2 z"
      by (rule cabs_agrees [OF ag])
    show ?thesis
    proof (cases "inside_radius_2 z")
      case inside: True
      then have cond: "flt (cabs impl z) (Finite 2) \<and> i < n"
        using test True by simp
      have "mandelbrot_loop impl c n z i =
          mandelbrot_loop impl c n (cadd (cmul z z) c) (i + 1)"
        using cond by (subst mandelbrot_loop.simps) simp
      also have "\<dots> = i + 1 + int (escape_steps (nat (n - (i + 1))) c (cadd (cmul z z) c))"
        using "1.IH" [OF cond] True rest [OF inside]
        by (simp add: step_is_square_plus)
      also have "\<dots> = i + int (escape_steps (nat (n - i)) c z)"
        unfolding budget using inside by (simp add: step_is_square_plus)
      finally show ?thesis .
    next
      case False
      then have "mandelbrot_loop impl c n z i = i"
        using test by (subst mandelbrot_loop.simps) simp
      moreover have "escape_steps (nat (n - i)) c z = 0"
        unfolding budget using False by simp
      ultimately show ?thesis by simp
    qed
  qed
qed

lemma escape_steps_numeral:
  "escape_steps (numeral k) c z =
     (if inside_radius_2 z then Suc (escape_steps (pred_numeral k) c (square_plus z c)) else 0)"
  by (simp add: numeral_eq_Suc)

lemma impl_agrees_along_numeral:
  "impl_agrees_along impl (numeral k) c z =
     (impl_agrees_at impl z \<and>
      (if inside_radius_2 z then impl_agrees_along impl (pred_numeral k) c (square_plus z c)
       else True))"
  by (simp add: numeral_eq_Suc)

text \<open>
  Claim C3.  For every positive cap and every pair of doubles, the result of
  \<^verbatim>\<open>mandelbrot\<close> lies between 0 and the cap, and it equals the count of the
  specification's escape-time definition (true modulus, boundary exactly at radius 2)
  whenever the library's comparison \<^verbatim>\<open>std::abs(z) < 2.0\<close> agrees with the true modulus at
  the values the iteration visits.  The condition cannot be dropped: see the example after
  the theorem.
\<close>

theorem mandelbrot_against_reference:
  assumes "0 < n"
  shows "0 \<le> mandelbrot impl re im n \<and> mandelbrot impl re im n \<le> n \<and>
    (impl_agrees_along impl (nat n) (re, im) (Finite 0, Finite 0) \<longrightarrow>
       mandelbrot impl re im n = reference_escape_time re im n)"
  using mandelbrot_loop_range [of 0 n impl "(re, im)" "(Finite 0, Finite 0)"]
    mandelbrot_loop_reference [of 0 n impl "(re, im)" "(Finite 0, Finite 0)"] assms
  by (simp add: mandelbrot_def reference_escape_time_def)

theorem mandelbrot_against_reference_witness:
  "(0::int) < 1000
   \<and> impl_agrees_along hypot_nearest (nat 1000) (Finite 1, Finite 1) (Finite 0, Finite 0)
   \<and> 0 \<le> mandelbrot hypot_nearest (Finite 1) (Finite 1) 1000
   \<and> mandelbrot hypot_nearest (Finite 1) (Finite 1) 1000 \<le> 1000
   \<and> mandelbrot hypot_nearest (Finite 1) (Finite 1) 1000
       = reference_escape_time (Finite 1) (Finite 1) 1000
   \<and> reference_escape_time (Finite 1) (Finite 1) 1000 = 2"
proof -
  have z1: "square_plus (Finite 0, Finite 0) (Finite 1, Finite 1) = (Finite 1, Finite 1)"
    by (simp add: eval_simps)
  have z2: "square_plus (Finite 1, Finite 1) (Finite 1, Finite 1) = (Finite 1, Finite 3)"
    by (simp add: eval_simps)
  have h1: "flt (hypot_nearest 1 1) (Finite 2)"
    by (simp add: hypot_nearest_def sqrt_double_2)
  have h2: "\<not> flt (hypot_nearest 1 3) (Finite 2)"
    by (rule hypot_nearest_escape) simp
  have a3: "impl_agrees_along hypot_nearest 998 (Finite 1, Finite 1) (Finite 1, Finite 3)"
    by (subst impl_agrees_along_numeral) (simp add: h2)
  have a2: "impl_agrees_along hypot_nearest 999 (Finite 1, Finite 1) (Finite 1, Finite 1)"
    by (subst impl_agrees_along_numeral) (simp add: h1 z2 a3 del: square_plus.simps)
  have ag: "impl_agrees_along hypot_nearest 1000 (Finite 1, Finite 1) (Finite 0, Finite 0)"
    by (subst impl_agrees_along_numeral) (simp add: z1 a2 del: square_plus.simps)
  have e3: "escape_steps 998 (Finite 1, Finite 1) (Finite 1, Finite 3) = 0"
    by (subst escape_steps_numeral) simp
  have e2: "escape_steps 999 (Finite 1, Finite 1) (Finite 1, Finite 1) = 1"
    by (subst escape_steps_numeral) (simp add: z2 e3 del: square_plus.simps)
  have e1: "escape_steps 1000 (Finite 1, Finite 1) (Finite 0, Finite 0) = 2"
    by (subst escape_steps_numeral) (simp add: z1 e2 del: square_plus.simps)
  have ref: "reference_escape_time (Finite 1) (Finite 1) 1000 = 2"
    unfolding reference_escape_time_def by (simp add: e1)
  show ?thesis
    using mandelbrot_against_reference [of 1000 hypot_nearest "Finite 1" "Finite 1"] ag ref
    by simp
qed

text \<open>
  Without the condition the equality fails.  Take \<^verbatim>\<open>real = 2 - 2^-52\<close> and
  \<^verbatim>\<open>imag = 7 * 2^-28\<close>, both doubles, and a library that returns the double nearest to the
  modulus.  The true modulus of \<open>c\<close> is below 2, its nearest double is 2.0: the program
  stops after one step, the escape-time definition takes a second one.
\<close>

theorem mandelbrot_reference_counterexample:
  "mandelbrot hypot_nearest (Finite ((2 ^ 53 - 1) / 2 ^ 52)) (Finite (7 / 2 ^ 28)) 1000 = 1
   \<and> reference_escape_time (Finite ((2 ^ 53 - 1) / 2 ^ 52)) (Finite (7 / 2 ^ 28)) 1000 = 2
   \<and> ((2 ^ 53 - 1) / 2 ^ 52) * ((2 ^ 53 - 1) / 2 ^ 52) + (7 / 2 ^ 28) * (7 / 2 ^ 28) < (4::rat)
   \<and> is_double ((2 ^ 53 - 1) / 2 ^ 52) \<and> is_double (7 / 2 ^ 28)"
proof -
  define a :: rat where "a = (2 ^ 53 - 1) / 2 ^ 52"
  define b :: rat where "b = 7 / 2 ^ 28"
  have d: "to_double a = Finite a" "to_double b = Finite b"
    by (simp_all add: a_def b_def eval_simps)
  have ne: "a \<noteq> 0" "b \<noteq> 0"
    by (simp_all add: a_def b_def)
  have inside: "a * a + b * b < 4"
    by (simp add: a_def b_def)
  have s: "a * a + b * b = 81129638414606677473664354484225 / 2 ^ 104"
    by (simp add: a_def b_def)
  have k: "- 52 = max (flog2 (81129638414606677473664354484225 / 2 ^ 104 :: rat) div 2)
      (- 1022) - 52"
    by (simp add: eval_simps)
  have x: "(81129638414606677473664354484225 / 2 ^ 104 :: rat) / 2 powi (2 * - 52)
      = 81129638414606677473664354484225"
    by simp
  have h: "hypot_nearest a b = Finite 2"
    unfolding hypot_nearest_def s
    by (subst sqrt_double_certificate [where k = "- 52" and m = 9007199254740991, OF _ k])
      (simp_all add: x eval_simps)
  have c1: "cadd (cmul (Finite 0, Finite 0) (Finite 0, Finite 0)) (Finite a, Finite b)
      = (Finite a, Finite b)"
    using d by (simp add: cadd_def cmul_def fsub_def to_double_small_ints)
  have "mandelbrot hypot_nearest (Finite a) (Finite b) 1000 =
      mandelbrot_loop hypot_nearest (Finite a, Finite b) 1000 (Finite a, Finite b) 1"
    unfolding mandelbrot_def
    by (subst mandelbrot_loop.simps) (simp add: zero_step(2) c1)
  also have "\<dots> = 1"
    using ne h by (subst mandelbrot_loop.simps) (simp add: cabs_def)
  finally have code: "mandelbrot hypot_nearest (Finite a) (Finite b) 1000 = 1" .
  have s1: "square_plus (Finite 0, Finite 0) (Finite a, Finite b) = (Finite a, Finite b)"
    using d by (simp add: fsub_def to_double_small_ints)
  have s2: "square_plus (Finite a, Finite b) (Finite a, Finite b) =
      (Finite (3377699720527871 / 562949953421312), Finite (35 / 268435456))"
    unfolding a_def b_def by (simp add: eval_simps)
  have e3: "escape_steps 998 (Finite a, Finite b)
      (Finite (3377699720527871 / 562949953421312), Finite (35 / 268435456)) = 0"
    by (subst escape_steps_numeral) simp
  have e2: "escape_steps 999 (Finite a, Finite b) (Finite a, Finite b) = 1"
    using inside by (subst escape_steps_numeral) (simp add: s2 e3 del: square_plus.simps)
  have e1: "escape_steps 1000 (Finite a, Finite b) (Finite 0, Finite 0) = 2"
    by (subst escape_steps_numeral) (simp add: s1 e2 del: square_plus.simps)
  have "reference_escape_time (Finite a) (Finite b) 1000 = 2"
    unfolding reference_escape_time_def by (simp add: e1)
  with code inside d show ?thesis
    by (simp add: a_def b_def is_double_def)
qed

section \<open>The colour channels\<close>

lemma bounded_by_Finite: "bounded_by (Finite q) hi = (0 \<le> q \<and> q \<le> hi)"
  by (simp add: bounded_by_def)

lemma bounded_by_to_double:
  assumes "round_rat hi = hi" "0 \<le> q" "q \<le> hi" "hi \<le> 8192"
  shows "bounded_by (to_double q) hi"
proof -
  have "(8192::rat) = 2 powi 13" by simp
  also have "\<dots> < 2 powi 1024" by (rule power_int_strict_increasing) simp_all
  finally have "hi < 2 powi 1024" using assms(4) by simp
  moreover have "round_rat 0 = 0" by (simp add: round_rat_def)
  moreover have "- (2 powi 1024) < (0::rat)" by simp
  ultimately show ?thesis
    using to_double_between [of 0 hi q] assms by (simp add: bounded_by_def)
qed

lemma bounded_by_fmul:
  assumes "bounded_by x A" "bounded_by y B" "round_rat (A * B) = A * B" "A * B \<le> 8192"
  shows "bounded_by (fmul x y) (A * B)"
proof -
  from assms(1) obtain a where a: "x = Finite a" "0 \<le> a" "a \<le> A"
    by (cases x) (simp_all add: bounded_by_def)
  from assms(2) obtain b where b: "y = Finite b" "0 \<le> b" "b \<le> B"
    by (cases y) (simp_all add: bounded_by_def)
  have "0 \<le> a * b" using a b by simp
  moreover have "a * b \<le> A * B" using a b by (intro mult_mono) simp_all
  ultimately show ?thesis
    using bounded_by_to_double [OF assms(3) _ _ assms(4)] a b by simp
qed

lemma int_to_double_exact:
  assumes "0 \<le> i" "i < 2 ^ 31"
  shows "int_to_double i = Finite (of_int i)"
proof (cases "i = 0")
  case True
  then show ?thesis by (simp add: int_to_double_def to_double_small_ints)
next
  case False
  define d :: rat where "d = of_int i"
  have "(of_int i :: rat) < of_int (2 ^ 31)"
    using assms(2) by (simp only: of_int_less_iff)
  then have d: "d \<noteq> 0" "\<bar>d\<bar> < 2 powi (30 + 1)"
    using assms(1) False by (simp_all add: d_def)
  have "quantum d \<le> 30 - 52" using d by (intro quantum_upper) simp_all
  then have "round_rat d = d"
    using round_rat_exact [of d i 0] by (simp add: d_def)
  moreover have "\<bar>d\<bar> < 2 powi 1024"
  proof -
    have "(2::rat) powi (30 + 1) < 2 powi 1024" by (rule power_int_strict_increasing) simp_all
    with d(2) show ?thesis by linarith
  qed
  ultimately show ?thesis
    using overflow_small [of d] by (simp add: int_to_double_def to_double_def d_def)
qed

lemma ratio_bounded:
  assumes "0 \<le> i" "i < n" "n < 2 ^ 31"
  shows "bounded_by (fdiv (int_to_double i) (int_to_double n)) 1"
proof -
  have "int_to_double i = Finite (of_int i)" "int_to_double n = Finite (of_int n)"
    using assms by (simp_all add: int_to_double_exact)
  moreover have "0 \<le> (of_int i / of_int n :: rat)" "(of_int i / of_int n :: rat) \<le> 1"
    using assms by simp_all
  moreover have "round_rat 1 = 1" by (simp add: eval_simps)
  ultimately show ?thesis
    using bounded_by_to_double [of 1 "of_int i / of_int n"] assms by simp
qed

lemma complement_bounded:
  assumes "bounded_by t 1"
  shows "bounded_by (fsub (int_to_double 1) t) 1"
proof -
  from assms obtain q where q: "t = Finite q" "0 \<le> q" "q \<le> 1"
    by (cases t) (simp_all add: bounded_by_def)
  have "round_rat 1 = 1" by (simp add: eval_simps)
  then have "bounded_by (to_double (1 - q)) 1"
    using q by (intro bounded_by_to_double) simp_all
  then show ?thesis
    using q by (simp add: fsub_def int_to_double_def to_double_small_ints)
qed

lemma representable_bounds:
  "round_rat 9 = 9" "round_rat 2295 = 2295" "round_rat (6885 / 2) = 6885 / 2"
  "round_rat 15 = 15" "round_rat 3825 = 3825" "round_rat (11475 / 2) = 11475 / 2"
  "round_rat (17 / 2) = 17 / 2" "round_rat (4335 / 2) = 4335 / 2"
  "round_rat (13005 / 4) = 13005 / 4"
  by (simp_all add: eval_simps)

lemma constants_bounded:
  "bounded_by (int_to_double 9) 9" "bounded_by (int_to_double 15) 15" "bounded_by (Finite (17 / 2)) (17 / 2)"
  "bounded_by (int_to_double 255) 255" "bounded_by (Finite (3 / 2)) (3 / 2)"
  by (simp_all add: bounded_by_def int_to_double_def eval_simps)

lemma red_bounded:
  assumes "bounded_by t 1"
  shows "bounded_by (red_value t) (6885 / 2)"
proof -
  note u = complement_bounded [OF assms]
  have "bounded_by (fmul (int_to_double 9) (fsub (int_to_double 1) t)) (9 * 1)"
    by (rule bounded_by_fmul [OF constants_bounded(1) u]) (simp_all add: representable_bounds)
  from bounded_by_fmul [OF this assms]
  have "bounded_by (fmul (fmul (int_to_double 9) (fsub (int_to_double 1) t)) t) (9 * 1 * 1)"
    by (simp add: representable_bounds)
  from bounded_by_fmul [OF this assms]
  have "bounded_by (fmul (fmul (fmul (int_to_double 9) (fsub (int_to_double 1) t)) t) t)
      (9 * 1 * 1 * 1)"
    by (simp add: representable_bounds)
  from bounded_by_fmul [OF this assms]
  have "bounded_by (fmul (fmul (fmul (fmul (int_to_double 9) (fsub (int_to_double 1) t)) t) t) t)
      (9 * 1 * 1 * 1 * 1)"
    by (simp add: representable_bounds)
  from bounded_by_fmul [OF this constants_bounded(4)]
  have "bounded_by (fmul (fmul (fmul (fmul (fmul (int_to_double 9) (fsub (int_to_double 1) t)) t) t) t)
      (int_to_double 255)) 2295"
    by (simp add: representable_bounds)
  from bounded_by_fmul [OF this constants_bounded(5)]
  show ?thesis
    by (simp add: representable_bounds red_value_def)
qed

lemma green_bounded:
  assumes "bounded_by t 1"
  shows "bounded_by (green_value t) (11475 / 2)"
proof -
  note u = complement_bounded [OF assms]
  have "bounded_by (fmul (int_to_double 15) (fsub (int_to_double 1) t)) (15 * 1)"
    by (rule bounded_by_fmul [OF constants_bounded(2) u]) (simp_all add: representable_bounds)
  from bounded_by_fmul [OF this u]
  have "bounded_by (fmul (fmul (int_to_double 15) (fsub (int_to_double 1) t))
      (fsub (int_to_double 1) t)) (15 * 1 * 1)"
    by (simp add: representable_bounds)
  from bounded_by_fmul [OF this assms]
  have "bounded_by (fmul (fmul (fmul (int_to_double 15) (fsub (int_to_double 1) t))
      (fsub (int_to_double 1) t)) t) (15 * 1 * 1 * 1)"
    by (simp add: representable_bounds)
  from bounded_by_fmul [OF this assms]
  have "bounded_by (fmul (fmul (fmul (fmul (int_to_double 15) (fsub (int_to_double 1) t))
      (fsub (int_to_double 1) t)) t) t) (15 * 1 * 1 * 1 * 1)"
    by (simp add: representable_bounds)
  from bounded_by_fmul [OF this constants_bounded(4)]
  have "bounded_by (fmul (fmul (fmul (fmul (fmul (int_to_double 15) (fsub (int_to_double 1) t))
      (fsub (int_to_double 1) t)) t) t) (int_to_double 255)) 3825"
    by (simp add: representable_bounds)
  from bounded_by_fmul [OF this constants_bounded(5)]
  show ?thesis
    by (simp add: representable_bounds green_value_def)
qed

lemma blue_bounded:
  assumes "bounded_by t 1"
  shows "bounded_by (blue_value t) (13005 / 4)"
proof -
  note u = complement_bounded [OF assms]
  have "bounded_by (fmul (Finite (17 / 2)) (fsub (int_to_double 1) t)) (17 / 2 * 1)"
    by (rule bounded_by_fmul [OF constants_bounded(3) u]) (simp_all add: representable_bounds)
  from bounded_by_fmul [OF this u]
  have "bounded_by (fmul (fmul (Finite (17 / 2)) (fsub (int_to_double 1) t))
      (fsub (int_to_double 1) t)) (17 / 2 * 1 * 1)"
    by (simp add: representable_bounds)
  from bounded_by_fmul [OF this u]
  have "bounded_by (fmul (fmul (fmul (Finite (17 / 2)) (fsub (int_to_double 1) t))
      (fsub (int_to_double 1) t)) (fsub (int_to_double 1) t)) (17 / 2 * 1 * 1 * 1)"
    by (simp add: representable_bounds)
  from bounded_by_fmul [OF this assms]
  have "bounded_by (fmul (fmul (fmul (fmul (Finite (17 / 2)) (fsub (int_to_double 1) t))
      (fsub (int_to_double 1) t)) (fsub (int_to_double 1) t)) t) (17 / 2 * 1 * 1 * 1 * 1)"
    by (simp add: representable_bounds)
  from bounded_by_fmul [OF this constants_bounded(4)]
  have "bounded_by (fmul (fmul (fmul (fmul (fmul (Finite (17 / 2)) (fsub (int_to_double 1) t))
      (fsub (int_to_double 1) t)) (fsub (int_to_double 1) t)) t) (int_to_double 255)) (4335 / 2)"
    by (simp add: representable_bounds)
  from bounded_by_fmul [OF this constants_bounded(5)]
  show ?thesis
    by (simp add: representable_bounds blue_value_def)
qed

lemma to_uchar_wraps:
  assumes "bounded_by d hi" "hi \<le> 8192"
  shows "wrapped d (to_uchar d)"
proof -
  from assms(1) obtain q where q: "d = Finite q" "0 \<le> q" "q \<le> hi"
    by (cases d) (simp_all add: bounded_by_def)
  have "q \<le> of_int 8192" using q(3) assms(2) by simp
  then have "\<lfloor>q\<rfloor> \<le> 8192" by (simp only: floor_le_iff)
  moreover have "0 \<le> \<lfloor>q\<rfloor>" using q(2) by simp
  ultimately have "to_uchar d = word_of_int \<lfloor>q\<rfloor>" "trunc q = \<lfloor>q\<rfloor>"
    using q by (simp_all add: trunc_def)
  then show ?thesis
    using q(1) by (simp add: wrapped_def uint_word_of_int take_bit_eq_mod)
qed

lemma min_uchar_max: "min w (255 :: 8 word) = w"
proof -
  have "uint w < 256" using uint_bounded [of w] by simp
  then have "w \<le> 255" by (simp add: word_le_def)
  then show ?thesis by (simp add: min_def)
qed

text \<open>
  Claim C9.  For every \<^verbatim>\<open>iterations\<close> with \<open>0 \<le> iterations < maxIterations\<close> (both C++
  \<^verbatim>\<open>int\<close>), the \<^verbatim>\<open>std::min\<close> after the cast changes no channel: \<^verbatim>\<open>getColor\<close> returns the
  three casts.  Each formula value is a finite, non-negative double, and the channel is
  its truncation reduced modulo 256.
\<close>

theorem getColor_wraps:
  assumes "0 \<le> i" "i < n" "n < 2 ^ 31"
  defines "t \<equiv> fdiv (int_to_double i) (int_to_double n)"
  shows "getColor i n = (to_uchar (red_value t), to_uchar (green_value t), to_uchar (blue_value t))
    \<and> bounded_by (red_value t) (6885 / 2) \<and> wrapped (red_value t) (fst (getColor i n))
    \<and> bounded_by (green_value t) (11475 / 2) \<and> wrapped (green_value t) (fst (snd (getColor i n)))
    \<and> bounded_by (blue_value t) (13005 / 4) \<and> wrapped (blue_value t) (snd (snd (getColor i n)))"
proof -
  have t: "bounded_by t 1"
    unfolding t_def using assms(1-3) by (rule ratio_bounded)
  have g: "getColor i n =
      (to_uchar (red_value t), to_uchar (green_value t), to_uchar (blue_value t))"
    using assms(2) by (simp add: getColor_def t_def min_uchar_max Let_def)
  have "wrapped (red_value t) (to_uchar (red_value t))"
    by (rule to_uchar_wraps [OF red_bounded [OF t]]) simp
  moreover have "wrapped (green_value t) (to_uchar (green_value t))"
    by (rule to_uchar_wraps [OF green_bounded [OF t]]) simp
  moreover have "wrapped (blue_value t) (to_uchar (blue_value t))"
    by (rule to_uchar_wraps [OF blue_bounded [OF t]]) simp
  ultimately show ?thesis
    using g red_bounded [OF t] green_bounded [OF t] blue_bounded [OF t] by simp
qed

theorem getColor_wraps_witness:
  "(0::int) \<le> 750 \<and> (750::int) < 1000 \<and> (1000::int) < 2 ^ 31
   \<and> red_value (fdiv (int_to_double 750) (int_to_double 1000)) = Finite (185895 / 512)
   \<and> trunc (185895 / 512) = 363
   \<and> wrapped (Finite (185895 / 512)) (fst (getColor 750 1000))
   \<and> getColor 750 1000 = (107, 201, 38)"
proof -
  have r: "red_value (fdiv (int_to_double 750) (int_to_double 1000)) = Finite (185895 / 512)"
    by (simp add: eval_simps red_value_def)
  have "trunc (185895 / 512) = 363"
    by (simp add: eval_simps)
  with r getColor_wraps [of 750 1000] getColor_750 show ?thesis
    by simp
qed

text \<open>
  Claim C1.  The channels of \<^verbatim>\<open>getColor\<close> are not the formula values truncated and then
  clamped into \<open>0..255\<close>: the cast to \<^verbatim>\<open>unsigned char\<close> comes first, so the clamp the code
  announces never acts.  At 750 of 1000 iterations the red formula gives about 363, which
  is stored as 107 where clamping gives 255.
\<close>

theorem getColor_clamp_defect:
  "getColor 750 1000 = (107, 201, 38) \<and> reference_color 750 1000 = (255, 201, 38)"
  using getColor_750 reference_color_750 by simp

end
